theory Spec2Isabelle
  imports Main "HOL-Library.Word"
begin

unbundle bit_operations_syntax

section \<open>The SQLite jsonb reader of ccl\_sqlite\_jsonb.py\<close>

text \<open>
  The module has one recursive function, \<open>_read_jsonb\<close>, and the public entry point
  \<open>read_jsonb\<close>, which keeps the value and drops the byte count. A Python \<open>bytes\<close>
  object is a list of 8-bit words, a Python \<open>int\<close> is an \<open>int\<close> (sizes and offsets,
  which are never negative here, are \<open>nat\<close>), a \<open>str\<close> is the list of its code points,
  and every exception the code can raise is a constructor of \<open>error\<close>. The limits
  of the interpreter's resources (its recursion limit, which turns very deep nesting into
  a RecursionError, and memory) are not part of the model.
\<close>

subsection \<open>Data\<close>

type_synonym byte = "8 word"
type_synonym pystr = "nat list"

text \<open>
  The enumeration \<open>JsonbType\<close> (lines 38-54). \<open>IntT\<close> is the member \<open>Int\<close>, whose
  name is taken in HOL.
\<close>

datatype JsonbType =
    Null | Bool_True | Bool_False | IntT | Int5 | Float | Float5 | Text
  | TextJ | Text5 | TextRaw | Array | Object
  | RESERVED_13 | RESERVED_14 | RESERVED_15

text \<open>
  The call \<open>JsonbType(n)\<close>: the member with value \<open>n\<close>; a value that is no member raises
  ValueError (\<open>None\<close> here).
\<close>

definition JsonbType_of :: "nat \<Rightarrow> JsonbType option" where
  "JsonbType_of n =
     (if n = 0 then Some Null else if n = 1 then Some Bool_True
      else if n = 2 then Some Bool_False else if n = 3 then Some IntT
      else if n = 4 then Some Int5 else if n = 5 then Some Float
      else if n = 6 then Some Float5 else if n = 7 then Some Text
      else if n = 8 then Some TextJ else if n = 9 then Some Text5
      else if n = 10 then Some TextRaw else if n = 11 then Some Array
      else if n = 12 then Some Object else if n = 13 then Some RESERVED_13
      else if n = 14 then Some RESERVED_14 else if n = 15 then Some RESERVED_15
      else None)"

text \<open>
  The exceptions, one constructor for each place that raises:
  \<^item> \<open>EmptyBuffer\<close>: \<open>ValueError("Input buffer is empty")\<close>, line 59;
  \<^item> \<open>IndexError\<close>: \<open>jsonb_data[1]\<close> on a one-byte buffer, line 66;
  \<^item> \<open>StructError\<close>: \<open>struct.unpack\<close> on a slice of the wrong length, lines 69, 72, 75;
  \<^item> \<open>EnumValueError\<close>: \<open>JsonbType(n)\<close> for a value that is no member, line 61;
  \<^item> \<open>UnexpectedSize\<close>: line 78;
  \<^item> \<open>NullNonZeroSize\<close>, \<open>BoolNonZeroSize\<close>: the ValueErrors of lines 82, 86, 90;
  \<^item> \<open>AsciiDecodeError\<close>, \<open>Utf8DecodeError\<close>: UnicodeDecodeError of \<open>bytes.decode\<close>;
  \<^item> \<open>IntValueError\<close>: the ValueError of \<open>int()\<close>, on an invalid literal or on a
    decimal literal of more digits than the interpreter's limit;
  \<^item> \<open>FloatLiteralError\<close>: the ValueError of \<open>float()\<close>;
  \<^item> \<open>TextJNotImplemented\<close>, \<open>Text5NotImplemented\<close>: NotImplementedError, lines 104, 108;
  \<^item> \<open>ObjectRanOutOfData\<close>: the ValueError of line 132;
  \<^item> \<open>KeyAlreadyInObject\<close>: the KeyError of line 136;
  \<^item> \<open>UnhashableKey\<close>: the TypeError of \<open>key in result\<close> (line 135) for a list or dict key;
  \<^item> \<open>UnexpectedJsonType\<close>: line 141 (the message's \<open>JsonbType.name\<close> raises
    AttributeError before the ValueError is built; either way the call fails there).
\<close>

datatype error =
    EmptyBuffer | IndexError | StructError | EnumValueError | UnexpectedSize
  | NullNonZeroSize | BoolNonZeroSize
  | AsciiDecodeError | Utf8DecodeError | IntValueError | FloatLiteralError
  | TextJNotImplemented | Text5NotImplemented
  | ObjectRanOutOfData | KeyAlreadyInObject | UnhashableKey | UnexpectedJsonType

text \<open>
  The decoded Python values: \<open>None\<close>, \<open>bool\<close>, \<open>int\<close>, \<open>float\<close>, \<open>str\<close>, \<open>list\<close> and
  \<open>dict\<close>. A dict keeps its insertion order, so it is the list of its items; its keys are
  whatever \<open>_read_jsonb\<close> returned for them. Floating-point numbers are a type parameter
  \<open>'f\<close>: the reader only obtains them from \<open>float()\<close> and compares them as dict keys.
\<close>

datatype 'f pyval =
    PyNone | PyBool bool | PyInt int | PyFloat 'f | PyStr pystr
  | PyList "'f pyval list" | PyDict "('f pyval \<times> 'f pyval) list"

text \<open>
  What the reader needs of Python's floats: \<open>float(s)\<close> on a str (\<open>None\<close> where it raises
  ValueError), \<open>==\<close> between two floats, and \<open>==\<close> between a float and an int.
\<close>

record 'f float_ops =
  py_float :: "pystr \<Rightarrow> 'f option"
  float_eq :: "'f \<Rightarrow> 'f \<Rightarrow> bool"
  float_eq_int :: "'f \<Rightarrow> int \<Rightarrow> bool"

subsection \<open>Python built-ins used by the reader\<close>

text \<open>The slice \<open>xs[i:j]\<close> for \<open>0 \<le> i\<close>, \<open>0 \<le> j\<close>: it never raises, and is empty when \<open>j \<le> i\<close>.\<close>

definition py_slice :: "'a list \<Rightarrow> nat \<Rightarrow> nat \<Rightarrow> 'a list" where
  "py_slice xs i j = take (j - i) (drop i xs)"

text \<open>
  \<open>struct.unpack(">H" | ">I" | ">Q", bs)\<close>: a big-endian unsigned integer of exactly
  \<open>n\<close> bytes; \<open>struct.error\<close> (\<open>None\<close>) for any other length.
\<close>

definition unpack_be :: "nat \<Rightarrow> byte list \<Rightarrow> nat option" where
  "unpack_be n bs =
     (if length bs = n then Some (foldl (\<lambda>a b. a * 256 + unat b) 0 bs) else None)"

text \<open>\<open>bs.decode("ascii")\<close>: UnicodeDecodeError (\<open>None\<close>) on a byte above 127.\<close>

definition decode_ascii :: "byte list \<Rightarrow> pystr option" where
  "decode_ascii bs = (if \<forall>b \<in> set bs. unat b < 128 then Some (map unat bs) else None)"

text \<open>
  \<open>bs.decode("utf-8")\<close>, strict: the shortest form only, no surrogates, nothing above
  U+10FFFF; UnicodeDecodeError (\<open>None\<close>) otherwise.
\<close>

definition is_cont :: "byte \<Rightarrow> bool" where
  "is_cont b = (128 \<le> unat b \<and> unat b \<le> 191)"

fun decode_utf8 :: "byte list \<Rightarrow> pystr option" where
  "decode_utf8 [] = Some []"
| "decode_utf8 (b0 # bs) =
     (if unat b0 < 128 then map_option ((#) (unat b0)) (decode_utf8 bs)
      else if 194 \<le> unat b0 \<and> unat b0 \<le> 223 then
        (case bs of
           b1 # r \<Rightarrow>
             if is_cont b1
             then map_option ((#) ((unat b0 - 192) * 64 + (unat b1 - 128))) (decode_utf8 r)
             else None
         | _ \<Rightarrow> None)
      else if 224 \<le> unat b0 \<and> unat b0 \<le> 239 then
        (case bs of
           b1 # b2 # r \<Rightarrow>
             if is_cont b1 \<and> is_cont b2
                \<and> (unat b0 = 224 \<longrightarrow> 160 \<le> unat b1)
                \<and> (unat b0 = 237 \<longrightarrow> unat b1 \<le> 159)
             then map_option
                    ((#) ((unat b0 - 224) * 4096 + (unat b1 - 128) * 64 + (unat b2 - 128)))
                    (decode_utf8 r)
             else None
         | _ \<Rightarrow> None)
      else if 240 \<le> unat b0 \<and> unat b0 \<le> 244 then
        (case bs of
           b1 # b2 # b3 # r \<Rightarrow>
             if is_cont b1 \<and> is_cont b2 \<and> is_cont b3
                \<and> (unat b0 = 240 \<longrightarrow> 144 \<le> unat b1)
                \<and> (unat b0 = 244 \<longrightarrow> unat b1 \<le> 143)
             then map_option
                    ((#) ((unat b0 - 240) * 262144 + (unat b1 - 128) * 4096
                          + (unat b2 - 128) * 64 + (unat b3 - 128)))
                    (decode_utf8 r)
             else None
         | _ \<Rightarrow> None)
      else None)"

text \<open>
  \<open>int(s)\<close> and \<open>int(s, 16)\<close> on an ASCII str, as CPython reads a literal: blanks
  (tab, LF, VT, FF, CR, space) are skipped on both sides, one sign is allowed, base 16
  allows a \<open>0x\<close> or \<open>0X\<close> prefix and one underscore after it, and the digits may be
  separated by single underscores. At least one digit is required.
\<close>

definition py_isspace :: "nat \<Rightarrow> bool" where
  "py_isspace c = ((9 \<le> c \<and> c \<le> 13) \<or> c = 32)"

definition digit_value :: "nat \<Rightarrow> nat option" where
  "digit_value c =
     (if 48 \<le> c \<and> c \<le> 57 then Some (c - 48)
      else if 97 \<le> c \<and> c \<le> 122 then Some (c - 87)
      else if 65 \<le> c \<and> c \<le> 90 then Some (c - 55)
      else None)"

definition is_digit :: "nat \<Rightarrow> nat \<Rightarrow> bool" where
  "is_digit base c = (case digit_value c of Some d \<Rightarrow> d < base | None \<Rightarrow> False)"

text \<open>
  The scan over digits and underscores: \<open>prev\<close> tells whether the character before was
  an underscore, \<open>ds\<close> collects the digit values. It stops at the first character that is
  neither; \<open>None\<close> on a doubled or trailing underscore.
\<close>

fun scan_digits :: "nat \<Rightarrow> bool \<Rightarrow> nat list \<Rightarrow> pystr \<Rightarrow> (nat list \<times> pystr) option" where
  "scan_digits base prev ds [] = (if prev then None else Some (ds, []))"
| "scan_digits base prev ds (c # cs) =
     (if c = 95 then (if prev then None else scan_digits base True ds cs)
      else if is_digit base c then scan_digits base False (ds @ [the (digit_value c)]) cs
      else if prev then None else Some (ds, c # cs))"

text \<open>
  The interpreter's limit on the digits of a decimal literal
  (\<open>sys.get_int_max_str_digits()\<close>, 4300 unless changed); bases that are powers of two
  have none.
\<close>

definition int_max_str_digits :: nat where
  "int_max_str_digits = 4300"

definition strip_sign :: "pystr \<Rightarrow> bool \<times> pystr" where
  "strip_sign s =
     (case s of
        c # cs \<Rightarrow> if c = 43 then (False, cs) else if c = 45 then (True, cs) else (False, s)
      | [] \<Rightarrow> (False, s))"

definition strip_hex_prefix :: "nat \<Rightarrow> pystr \<Rightarrow> pystr" where
  "strip_hex_prefix base s =
     (case s of
        c0 # c1 # cs \<Rightarrow>
          if base = 16 \<and> c0 = 48 \<and> (c1 = 120 \<or> c1 = 88)
          then (case cs of c2 # cs' \<Rightarrow> if c2 = 95 then cs' else cs | [] \<Rightarrow> cs)
          else s
      | _ \<Rightarrow> s)"

definition py_int :: "nat \<Rightarrow> pystr \<Rightarrow> error + int" where
  "py_int base s =
     (let (neg, s1) = strip_sign (dropWhile py_isspace s);
          s2 = strip_hex_prefix base s1
      in case s2 of
           [] \<Rightarrow> Inl IntValueError
         | c # cs \<Rightarrow>
             if c = 95 then Inl IntValueError
             else
               (case scan_digits base False [] s2 of
                  None \<Rightarrow> Inl IntValueError
                | Some (ds, rest) \<Rightarrow>
                    if ds = [] \<or> dropWhile py_isspace rest \<noteq> [] then Inl IntValueError
                    else if base = 10 \<and> length ds > int_max_str_digits then Inl IntValueError
                    else
                      let n = int (foldl (\<lambda>a d. a * base + d) 0 ds)
                      in Inr (if neg then - n else n)))"

text \<open>
  Equality of two dict keys, \<open>k1 == k2\<close>, for the hashable values: \<open>True\<close> and
  \<open>False\<close> are the integers 1 and 0, numbers compare by value, and values of different
  kinds are unequal. Equal keys have equal hashes, so \<open>key in result\<close> is the search
  for an equal key.
\<close>

fun py_eq :: "'f float_ops \<Rightarrow> 'f pyval \<Rightarrow> 'f pyval \<Rightarrow> bool" where
  "py_eq F PyNone PyNone = True"
| "py_eq F (PyBool a) (PyBool b) = (a = b)"
| "py_eq F (PyBool a) (PyInt j) = ((if a then 1 else 0) = j)"
| "py_eq F (PyInt i) (PyBool b) = (i = (if b then 1 else 0))"
| "py_eq F (PyBool a) (PyFloat y) = float_eq_int F y (if a then 1 else 0)"
| "py_eq F (PyFloat x) (PyBool b) = float_eq_int F x (if b then 1 else 0)"
| "py_eq F (PyInt i) (PyInt j) = (i = j)"
| "py_eq F (PyInt i) (PyFloat y) = float_eq_int F y i"
| "py_eq F (PyFloat x) (PyInt j) = float_eq_int F x j"
| "py_eq F (PyFloat x) (PyFloat y) = float_eq F x y"
| "py_eq F (PyStr s) (PyStr t) = (s = t)"
| "py_eq F _ _ = False"

text \<open>
  \<open>key in result\<close> (line 135): hashing a list or a dict raises TypeError; otherwise the
  answer is whether an equal key is present.
\<close>

fun hashable :: "'f pyval \<Rightarrow> bool" where
  "hashable (PyList _) = False"
| "hashable (PyDict _) = False"
| "hashable _ = True"

definition dict_contains ::
  "'f float_ops \<Rightarrow> ('f pyval \<times> 'f pyval) list \<Rightarrow> 'f pyval \<Rightarrow> error + bool" where
  "dict_contains F result key =
     (if hashable key then Inr (\<exists>k \<in> set (map fst result). py_eq F k key)
      else Inl UnhashableKey)"

subsection \<open>The header (lines 58-78)\<close>

text \<open>
  The first part of \<open>_read_jsonb\<close>: the emptiness check, the size selector and the type
  from byte 0, and the size prefix. It yields \<open>json_type\<close>, \<open>size\<close> and
  \<open>data_start_offset\<close>.
\<close>

definition read_header :: "byte list \<Rightarrow> error + (JsonbType \<times> nat \<times> nat)" where
  "read_header jsonb_data =
     (if length jsonb_data = 0 then Inl EmptyBuffer
      else
        let size' = unat (drop_bit 4 (jsonb_data ! 0 AND 0xf0))
        in case JsonbType_of (unat (jsonb_data ! 0 AND 0x0f)) of
             None \<Rightarrow> Inl EnumValueError
           | Some json_type \<Rightarrow>
               if size' \<le> 11 then Inr (json_type, size', 1)
               else if size' = 12 then
                 (if 1 < length jsonb_data then Inr (json_type, unat (jsonb_data ! 1), 2)
                  else Inl IndexError)
               else if size' = 13 then
                 (case unpack_be 2 (py_slice jsonb_data 1 3) of
                    Some n \<Rightarrow> Inr (json_type, n, 3) | None \<Rightarrow> Inl StructError)
               else if size' = 14 then
                 (case unpack_be 4 (py_slice jsonb_data 1 5) of
                    Some n \<Rightarrow> Inr (json_type, n, 5) | None \<Rightarrow> Inl StructError)
               else if size' = 15 then
                 (case unpack_be 8 (py_slice jsonb_data 1 9) of
                    Some n \<Rightarrow> Inr (json_type, n, 9) | None \<Rightarrow> Inl StructError)
               else Inl UnexpectedSize)"

subsection \<open>The scalar payloads (lines 80-115)\<close>

text \<open>
  The branches of the type dispatch that do not recurse, on the whole buffer as the
  source has it. The Int5 branch compares \<open>jsonb_data[off:off + 2]\<close> with \<open>b"0x"\<close>
  whatever \<open>size\<close> is.
\<close>

definition decode_int :: "nat \<Rightarrow> byte list \<Rightarrow> error + 'f pyval" where
  "decode_int base bs =
     (case decode_ascii bs of
        None \<Rightarrow> Inl AsciiDecodeError
      | Some s \<Rightarrow> (case py_int base s of Inl e \<Rightarrow> Inl e | Inr n \<Rightarrow> Inr (PyInt n)))"

definition decode_float :: "'f float_ops \<Rightarrow> byte list \<Rightarrow> error + 'f pyval" where
  "decode_float F bs =
     (case decode_ascii bs of
        None \<Rightarrow> Inl AsciiDecodeError
      | Some s \<Rightarrow> (case py_float F s of None \<Rightarrow> Inl FloatLiteralError | Some x \<Rightarrow> Inr (PyFloat x)))"

definition decode_text :: "byte list \<Rightarrow> error + 'f pyval" where
  "decode_text bs =
     (case decode_utf8 bs of None \<Rightarrow> Inl Utf8DecodeError | Some s \<Rightarrow> Inr (PyStr s))"

subsection \<open>\<open>_read_jsonb\<close> (lines 57-143) and \<open>read_jsonb\<close> (lines 146-147)\<close>

text \<open>
  \<open>u_read_jsonb\<close> is \<open>_read_jsonb\<close>. The two \<open>while\<close> loops are \<open>array_loop\<close> (lines
  120-123) and \<open>object_loop\<close> (lines 128-139), on the loop state \<open>bytes_consumed\<close> and
  \<open>result\<close>.
\<close>

function
  u_read_jsonb :: "'f float_ops \<Rightarrow> byte list \<Rightarrow> error + ('f pyval \<times> nat)"
and
  array_loop ::
    "'f float_ops \<Rightarrow> byte list \<Rightarrow> nat \<Rightarrow> nat \<Rightarrow> 'f pyval list \<Rightarrow> error + 'f pyval list"
and
  object_loop ::
    "'f float_ops \<Rightarrow> byte list \<Rightarrow> nat \<Rightarrow> nat \<Rightarrow> ('f pyval \<times> 'f pyval) list
       \<Rightarrow> error + ('f pyval \<times> 'f pyval) list"
where
  "u_read_jsonb F jsonb_data =
     (case read_header jsonb_data of
        Inl e \<Rightarrow> Inl e
      | Inr (json_type, size', data_start_offset) \<Rightarrow>
          (case
             (case json_type of
                Null \<Rightarrow> if size' \<noteq> 0 then Inl NullNonZeroSize else Inr PyNone
              | Bool_True \<Rightarrow> if size' \<noteq> 0 then Inl BoolNonZeroSize else Inr (PyBool True)
              | Bool_False \<Rightarrow> if size' \<noteq> 0 then Inl BoolNonZeroSize else Inr (PyBool False)
              | IntT \<Rightarrow>
                  decode_int 10 (py_slice jsonb_data data_start_offset (data_start_offset + size'))
              | Int5 \<Rightarrow>
                  if py_slice jsonb_data data_start_offset (data_start_offset + 2) = [0x30, 0x78]
                  then decode_int 16
                         (py_slice jsonb_data (data_start_offset + 2) (data_start_offset + size'))
                  else decode_int 10
                         (py_slice jsonb_data data_start_offset (data_start_offset + size'))
              | Float \<Rightarrow>
                  decode_float F (py_slice jsonb_data data_start_offset (data_start_offset + size'))
              | Float5 \<Rightarrow>
                  decode_float F (py_slice jsonb_data data_start_offset (data_start_offset + size'))
              | Text \<Rightarrow>
                  decode_text (py_slice jsonb_data data_start_offset (data_start_offset + size'))
              | TextRaw \<Rightarrow>
                  decode_text (py_slice jsonb_data data_start_offset (data_start_offset + size'))
              | TextJ \<Rightarrow> Inl TextJNotImplemented
              | Text5 \<Rightarrow> Inl Text5NotImplemented
              | Array \<Rightarrow>
                  (case array_loop F
                          (py_slice jsonb_data data_start_offset (data_start_offset + size'))
                          size' 0 [] of
                     Inl e \<Rightarrow> Inl e | Inr result \<Rightarrow> Inr (PyList result))
              | Object \<Rightarrow>
                  (case object_loop F
                          (py_slice jsonb_data data_start_offset (data_start_offset + size'))
                          size' 0 [] of
                     Inl e \<Rightarrow> Inl e | Inr result \<Rightarrow> Inr (PyDict result))
              | RESERVED_13 \<Rightarrow> Inl UnexpectedJsonType
              | RESERVED_14 \<Rightarrow> Inl UnexpectedJsonType
              | RESERVED_15 \<Rightarrow> Inl UnexpectedJsonType)
           of
             Inl e \<Rightarrow> Inl e
           | Inr result \<Rightarrow> Inr (result, data_start_offset + size')))"
| "array_loop F inner_data size' bytes_consumed result =
     (if bytes_consumed < size' then
        (case u_read_jsonb F (drop bytes_consumed inner_data) of
           Inl e \<Rightarrow> Inl e
         | Inr (element, element_size) \<Rightarrow>
             array_loop F inner_data size' (bytes_consumed + element_size) (result @ [element]))
      else Inr result)"
| "object_loop F inner_data size' bytes_consumed result =
     (if bytes_consumed < size' then
        (case u_read_jsonb F (drop bytes_consumed inner_data) of
           Inl e \<Rightarrow> Inl e
         | Inr (key, key_size) \<Rightarrow>
             if bytes_consumed + key_size \<ge> size' then Inl ObjectRanOutOfData
             else
               (case u_read_jsonb F (drop (bytes_consumed + key_size) inner_data) of
                  Inl e \<Rightarrow> Inl e
                | Inr (val, value_size) \<Rightarrow>
                    (case dict_contains F result key of
                       Inl e \<Rightarrow> Inl e
                     | Inr present \<Rightarrow>
                         if present then Inl KeyAlreadyInObject
                         else object_loop F inner_data size'
                                (bytes_consumed + key_size + value_size)
                                (result @ [(key, val)]))))
      else Inr result)"
  by pat_completeness auto

text \<open>\<open>read_jsonb\<close> returns element 0 of the pair; an exception passes through.\<close>

definition read_jsonb :: "'f float_ops \<Rightarrow> byte list \<Rightarrow> error + 'f pyval" where
  "read_jsonb F jsonb_data =
     (case u_read_jsonb F jsonb_data of Inl e \<Rightarrow> Inl e | Inr r \<Rightarrow> Inr (fst r))"

text \<open>
  A float parameter for closed examples whose buffers hold no Float value: \<open>float()\<close>
  rejects everything and nothing compares equal.
\<close>

definition no_floats :: "unit float_ops" where
  "no_floats = \<lparr>py_float = (\<lambda>_. None), float_eq = (\<lambda>_ _. False), float_eq_int = (\<lambda>_ _. False)\<rparr>"

subsection \<open>Auxiliary definitions for the proofs\<close>

text \<open>
  The length of the header announced by byte 0, and the type dispatch of lines 80-141 as
  a function of \<open>json_type\<close>, \<open>size\<close> and the bytes after the header. Lemma
  \<open>u_read_jsonb_header\<close> below shows that \<open>u_read_jsonb\<close> is the header followed by
  \<open>payload_value\<close>.
\<close>

definition header_len :: "byte \<Rightarrow> nat" where
  "header_len w =
     (if unat w div 16 \<le> 11 then 1 else if unat w div 16 = 12 then 2
      else if unat w div 16 = 13 then 3 else if unat w div 16 = 14 then 5 else 9)"

definition payload_value ::
  "'f float_ops \<Rightarrow> JsonbType \<Rightarrow> nat \<Rightarrow> byte list \<Rightarrow> error + 'f pyval" where
  "payload_value F json_type size' rest =
     (case json_type of
        Null \<Rightarrow> if size' \<noteq> 0 then Inl NullNonZeroSize else Inr PyNone
      | Bool_True \<Rightarrow> if size' \<noteq> 0 then Inl BoolNonZeroSize else Inr (PyBool True)
      | Bool_False \<Rightarrow> if size' \<noteq> 0 then Inl BoolNonZeroSize else Inr (PyBool False)
      | IntT \<Rightarrow> decode_int 10 (take size' rest)
      | Int5 \<Rightarrow>
          if take 2 rest = [0x30, 0x78] then decode_int 16 (take (size' - 2) (drop 2 rest))
          else decode_int 10 (take size' rest)
      | Float \<Rightarrow> decode_float F (take size' rest)
      | Float5 \<Rightarrow> decode_float F (take size' rest)
      | Text \<Rightarrow> decode_text (take size' rest)
      | TextRaw \<Rightarrow> decode_text (take size' rest)
      | TextJ \<Rightarrow> Inl TextJNotImplemented
      | Text5 \<Rightarrow> Inl Text5NotImplemented
      | Array \<Rightarrow>
          (case array_loop F (take size' rest) size' 0 [] of
             Inl e \<Rightarrow> Inl e | Inr result \<Rightarrow> Inr (PyList result))
      | Object \<Rightarrow>
          (case object_loop F (take size' rest) size' 0 [] of
             Inl e \<Rightarrow> Inl e | Inr result \<Rightarrow> Inr (PyDict result))
      | RESERVED_13 \<Rightarrow> Inl UnexpectedJsonType
      | RESERVED_14 \<Rightarrow> Inl UnexpectedJsonType
      | RESERVED_15 \<Rightarrow> Inl UnexpectedJsonType)"

text \<open>
  An encoded key/value pair of an Object payload, with what its two parts decode to:
  \<open>pair_ok\<close> says that the key bytes are exactly the encoding of the Text \<open>key_text\<close> and
  the value bytes exactly an encoding of \<open>value_of\<close>; \<open>pairs_payload\<close> is the payload
  that holds the pairs one after the other.
\<close>

datatype 'f pair_enc =
  Pair_enc (key_bytes: "byte list") (key_text: pystr) (value_bytes: "byte list")
    (value_of: "'f pyval")

definition pair_ok :: "'f float_ops \<Rightarrow> 'f pair_enc \<Rightarrow> bool" where
  "pair_ok F p =
     (u_read_jsonb F (key_bytes p) = Inr (PyStr (key_text p), length (key_bytes p))
      \<and> u_read_jsonb F (value_bytes p) = Inr (value_of p, length (value_bytes p)))"

definition pairs_payload :: "'f pair_enc list \<Rightarrow> byte list" where
  "pairs_payload items = concat (map (\<lambda>p. key_bytes p @ value_bytes p) items)"

text \<open>
  The decimal literals of \<open>int()\<close>, stated as a grammar: blanks, one optional sign, a
  body, blanks. The body is made of decimal digits and underscores, begins and ends with
  a digit and has no two underscores in a row; its digits, underscores left out, are the
  value, and there are at most \<open>int_max_str_digits\<close> of them. \<open>body_tail\<close> is the part of
  that condition that holds of every suffix of a body.
\<close>

definition is_dec :: "nat \<Rightarrow> bool" where
  "is_dec c = (48 \<le> c \<and> c \<le> 57)"

fun no_double_us :: "pystr \<Rightarrow> bool" where
  "no_double_us (a # b # cs) = (\<not> (a = 95 \<and> b = 95) \<and> no_double_us (b # cs))"
| "no_double_us _ = True"

definition digit_body :: "pystr \<Rightarrow> bool" where
  "digit_body body =
     (body \<noteq> [] \<and> list_all (\<lambda>c. is_dec c \<or> c = 95) body
      \<and> hd body \<noteq> 95 \<and> last body \<noteq> 95 \<and> no_double_us body)"

definition body_digits :: "pystr \<Rightarrow> nat list" where
  "body_digits body = map (\<lambda>c. c - 48) (filter (\<lambda>c. c \<noteq> 95) body)"

definition decimal_literal :: "pystr \<Rightarrow> int \<Rightarrow> bool" where
  "decimal_literal s n =
     (\<exists>lead sg body trail.
        s = lead @ sg @ body @ trail
        \<and> list_all py_isspace lead \<and> list_all py_isspace trail
        \<and> (sg = [] \<or> sg = [43] \<or> sg = [45])
        \<and> digit_body body
        \<and> length (body_digits body) \<le> int_max_str_digits
        \<and> n = (if sg = [45] then - int (foldl (\<lambda>a d. a * 10 + d) 0 (body_digits body))
                 else int (foldl (\<lambda>a d. a * 10 + d) 0 (body_digits body))))"

definition body_tail :: "pystr \<Rightarrow> bool" where
  "body_tail body =
     (list_all (\<lambda>c. is_dec c \<or> c = 95) body \<and> no_double_us body
      \<and> (body \<noteq> [] \<longrightarrow> last body \<noteq> 95))"

section \<open>Termination\<close>

text \<open>
  A successful call returns \<open>data_start_offset + size\<close> with
  \<open>data_start_offset \<ge> 1\<close>, so each loop iteration moves \<open>bytes_consumed\<close> forward, and
  the payload slice handed to a loop is shorter than the buffer it was cut from.
\<close>

lemma read_header_offset:
  "read_header b = Inr (t, s, off) \<Longrightarrow> 1 \<le> off \<and> off \<le> length b"
  by (cases b) (auto simp: read_header_def Let_def unpack_be_def py_slice_def Suc_le_eq
      split: if_splits option.splits)

lemma read_header_nonempty: "read_header b = Inr x \<Longrightarrow> b \<noteq> []"
  by (auto simp: read_header_def)

lemma slice_shorter:
  "1 \<le> off \<Longrightarrow> b \<noteq> [] \<Longrightarrow> length (py_slice b off j) < length b"
  by (cases b) (auto simp: py_slice_def)

lemma inner_shorter:
  "read_header b = Inr (t, s, off) \<Longrightarrow> Suc (2 * length (py_slice b off j)) < 2 * length b"
  using slice_shorter[of off b j] read_header_offset[of b t s off] read_header_nonempty[of b]
  by auto

lemma u_read_jsonb_dom_consumed:
  "u_read_jsonb_array_loop_object_loop_dom (Inl (F, b)) \<Longrightarrow>
   u_read_jsonb F b = Inr (v, n) \<Longrightarrow> 1 \<le> n"
  by (auto simp: u_read_jsonb.psimps split: sum.splits prod.splits dest!: read_header_offset)

lemma reader_all_dom: "All u_read_jsonb_array_loop_object_loop_dom"
  apply (relation "inv_image (less_than <*lex*> less_than)
     (\<lambda>x. case x of
        Inl (F, b) \<Rightarrow> (2 * length b, 0)
      | Inr (Inl (F, inner, sz, c, r)) \<Rightarrow> (2 * length inner + 1, sz - c)
      | Inr (Inr (F, inner, sz, c, r)) \<Rightarrow> (2 * length inner + 1, sz - c))")
         apply (auto dest!: u_read_jsonb_dom_consumed simp: inner_shorter)
  done

termination u_read_jsonb
  by (rule reader_all_dom)

declare u_read_jsonb.simps [simp del] array_loop.simps [simp del] object_loop.simps [simp del]

declare scan_digits.simps [simp del]


lemma reader_dom: "u_read_jsonb_array_loop_object_loop_dom x"
  using reader_all_dom by (rule spec)

lemma consumed_positive: "u_read_jsonb F b = Inr (v, n) \<Longrightarrow> 1 \<le> n"
  by (rule u_read_jsonb_dom_consumed [OF reader_dom])

section \<open>Bytes, headers and payloads\<close>

lemma lo_nibble: "unat (w AND 0x0f) = unat w mod 16" for w :: byte
proof -
  have "w AND 0x0f = take_bit 4 w" by (simp add: take_bit_eq_mask mask_eq_exp_minus_1)
  then show ?thesis by (simp add: unsigned_take_bit_eq take_bit_eq_mod unat_mod)
qed

lemma hi_nibble: "unat (drop_bit 4 (w AND 0xf0)) = unat w div 16" for w :: byte
proof -
  have "unat w < 256" using unsigned_less[of w, where 'a=nat] by simp
  then have lt: "unat w div 16 < 16" by simp
  have "drop_bit 4 (w AND 0xf0) = drop_bit 4 w AND 0x0f" by simp
  then have "unat (drop_bit 4 (w AND 0xf0)) = unat (drop_bit 4 w) mod 16"
    by (simp only: lo_nibble)
  also have "unat (drop_bit 4 w) = unat w div 16"
    by (simp add: drop_bit_eq_div unat_div)
  finally show ?thesis using lt by simp
qed

lemma hi_nibble': "unat (drop_bit 4 w) mod 16 = unat w div 16" for w :: byte
  using hi_nibble[of w] by (simp add: lo_nibble)

lemma byte_of_nat: "k < 256 \<Longrightarrow> unat (of_nat k :: byte) = k"
  by (simp add: unat_of_nat take_bit_nat_eq_self)

lemma JsonbType_of_total: "n < 16 \<Longrightarrow> \<exists>t. JsonbType_of n = Some t"
  by (simp add: JsonbType_of_def) arith

lemma selector_cases:
  "unat w div 16 \<le> 11 \<or> unat w div 16 = 12 \<or> unat w div 16 = 13
   \<or> unat w div 16 = 14 \<or> unat w div 16 = 15" for w :: byte
proof -
  have "unat w < 256" using unsigned_less[of w, where 'a=nat] by simp
  then show ?thesis by arith
qed

lemma read_header_Cons:
  "read_header (w # bs) =
     (case JsonbType_of (unat w mod 16) of
        None \<Rightarrow> Inl EnumValueError
      | Some t \<Rightarrow>
          if unat w div 16 \<le> 11 then Inr (t, unat w div 16, 1)
          else if unat w div 16 = 12 then
            (case take 1 bs of [] \<Rightarrow> Inl IndexError | x # _ \<Rightarrow> Inr (t, unat x, 2))
          else
            (case unpack_be (header_len w - 1) (take (header_len w - 1) bs) of
               Some n \<Rightarrow> Inr (t, n, header_len w) | None \<Rightarrow> Inl StructError))"
proof -
  obtain t where t: "JsonbType_of (unat w mod 16) = Some t"
    using JsonbType_of_total[of "unat w mod 16"] by auto
  show ?thesis
    using selector_cases[of w]
    by (cases bs)
       (auto simp: t read_header_def hi_nibble' lo_nibble py_slice_def header_len_def Let_def
          cong: option.case_cong)
qed

lemma read_header_agree_Cons:
  "take (header_len w - 1) bs' = take (header_len w - 1) bs \<Longrightarrow>
   read_header (w # bs') = read_header (w # bs)"
proof -
  obtain t where t: "JsonbType_of (unat w mod 16) = Some t"
    using JsonbType_of_total[of "unat w mod 16"] by auto
  assume "take (header_len w - 1) bs' = take (header_len w - 1) bs"
  then show ?thesis
    using selector_cases[of w]
    by (auto simp: t read_header_Cons header_len_def cong: option.case_cong)
qed

lemma read_header_len:
  "read_header (w # bs) = Inr (t, sz, off) \<Longrightarrow> off = header_len w"
  by (auto simp: read_header_Cons header_len_def split: option.splits if_splits list.splits)

lemma read_header_agree:
  assumes "read_header b = Inr (t, sz, off)" and "take off b' = take off b"
  shows "read_header b' = Inr (t, sz, off)"
proof -
  from assms(1) obtain w bs where b: "b = w # bs"
    by (cases b) (auto simp: read_header_def)
  from assms(1) have off: "off = header_len w"
    unfolding b by (rule read_header_len)
  then have "1 \<le> off" by (simp add: header_len_def)
  with assms(2) b obtain bs' where b': "b' = w # bs'" and "take (off - 1) bs' = take (off - 1) bs"
    by (cases b'; cases off) auto
  then show ?thesis
    using assms(1) read_header_agree_Cons[of w bs' bs] off b by simp
qed

lemma u_read_jsonb_header:
  "u_read_jsonb F b =
     (case read_header b of
        Inl e \<Rightarrow> Inl e
      | Inr (t, sz, off) \<Rightarrow>
          (case payload_value F t sz (drop off b) of
             Inl e \<Rightarrow> Inl e
           | Inr v \<Rightarrow> Inr (v, off + sz)))"
proof (cases "read_header b")
  case (Inl e)
  then show ?thesis by (simp add: u_read_jsonb.simps)
next
  case (Inr x)
  obtain t sz off where x: "x = (t, sz, off)" by (cases x)
  show ?thesis
    by (cases t)
       (simp_all add: u_read_jsonb.simps Inr x payload_value_def py_slice_def)
qed

lemma unpack_be_None: "unpack_be k (take k bs) = None \<longleftrightarrow> length bs < k"
  by (auto simp: unpack_be_def)

lemma read_header_type:
  "read_header (w # bs) = Inr (t, sz, off) \<Longrightarrow> JsonbType_of (unat w mod 16) = Some t"
  by (auto simp: read_header_Cons split: option.splits if_splits list.splits)

lemma header_step:
  assumes "read_header b1 = Inr (t, sz, off1)" and "read_header b2 = Inr (t, sz, off2)"
    and "drop off1 b1 = drop off2 b2"
  shows "case u_read_jsonb F b1 of
           Inl e \<Rightarrow> u_read_jsonb F b2 = Inl e
         | Inr (v, n) \<Rightarrow> n = off1 + sz \<and> u_read_jsonb F b2 = Inr (v, off2 + sz)"
  using assms by (simp add: u_read_jsonb_header split: sum.splits)

lemma read_header_nibbles:
  assumes "unat w = 16 * S + tg" and "tg < 16" and "JsonbType_of tg = Some t"
  shows "read_header (w # bs) =
     (if S \<le> 11 then Inr (t, S, 1)
      else if S = 12 then
        (case take 1 bs of [] \<Rightarrow> Inl IndexError | x # _ \<Rightarrow> Inr (t, unat x, 2))
      else if S = 13 then
        (case unpack_be 2 (take 2 bs) of Some n \<Rightarrow> Inr (t, n, 3) | None \<Rightarrow> Inl StructError)
      else if S = 14 then
        (case unpack_be 4 (take 4 bs) of Some n \<Rightarrow> Inr (t, n, 5) | None \<Rightarrow> Inl StructError)
      else
        (case unpack_be 8 (take 8 bs) of Some n \<Rightarrow> Inr (t, n, 9) | None \<Rightarrow> Inl StructError))"
proof -
  from assms have d: "unat w div 16 = S" and m: "unat w mod 16 = tg" by simp_all
  show ?thesis
    by (simp add: read_header_Cons d m assms(3) header_len_def cong: option.case_cong)
qed

lemma read_header_literal:
  assumes "tg < 16" and "N \<le> 11" and "JsonbType_of tg = Some t"
  shows "read_header (of_nat (16 * N + tg) # rest) = Inr (t, N, 1)"
proof -
  from assms have "unat (of_nat (16 * N + tg) :: byte) = 16 * N + tg"
    by (intro byte_of_nat) simp
  from read_header_nibbles[OF this assms(1,3), of rest] assms(2) show ?thesis
    by (simp del: of_nat_add of_nat_mult)
qed

lemma read_header_wide:
  assumes "tg < 16" and "JsonbType_of tg = Some t"
  shows "read_header (of_nat (192 + tg) # x # rest) = Inr (t, unat x, 2)"
    and "read_header (of_nat (208 + tg) # x1 # x2 # rest) = Inr (t, unat x1 * 256 + unat x2, 3)"
    and "read_header (of_nat (224 + tg) # x1 # x2 # x3 # x4 # rest)
           = Inr (t, ((unat x1 * 256 + unat x2) * 256 + unat x3) * 256 + unat x4, 5)"
    and "read_header (of_nat (240 + tg) # x1 # x2 # x3 # x4 # x5 # x6 # x7 # x8 # rest)
           = Inr (t, ((((((unat x1 * 256 + unat x2) * 256 + unat x3) * 256 + unat x4) * 256
                  + unat x5) * 256 + unat x6) * 256 + unat x7) * 256 + unat x8, 9)"
proof -
  from assms have u: "unat (of_nat (192 + tg) :: byte) = 16 * 12 + tg"
    "unat (of_nat (208 + tg) :: byte) = 16 * 13 + tg"
    "unat (of_nat (224 + tg) :: byte) = 16 * 14 + tg"
    "unat (of_nat (240 + tg) :: byte) = 16 * 15 + tg"
    by (simp_all add: byte_of_nat del: of_nat_add)
  show "read_header (of_nat (192 + tg) # x # rest) = Inr (t, unat x, 2)"
    using read_header_nibbles[OF u(1) assms, of "x # rest"]
    by (simp del: of_nat_add of_nat_mult)
  show "read_header (of_nat (208 + tg) # x1 # x2 # rest) = Inr (t, unat x1 * 256 + unat x2, 3)"
    using read_header_nibbles[OF u(2) assms, of "x1 # x2 # rest"]
    by (simp add: unpack_be_def del: of_nat_add of_nat_mult)
  show "read_header (of_nat (224 + tg) # x1 # x2 # x3 # x4 # rest)
           = Inr (t, ((unat x1 * 256 + unat x2) * 256 + unat x3) * 256 + unat x4, 5)"
    using read_header_nibbles[OF u(3) assms, of "x1 # x2 # x3 # x4 # rest"]
    by (simp add: unpack_be_def del: of_nat_add of_nat_mult)
  show "read_header (of_nat (240 + tg) # x1 # x2 # x3 # x4 # x5 # x6 # x7 # x8 # rest)
           = Inr (t, ((((((unat x1 * 256 + unat x2) * 256 + unat x3) * 256 + unat x4) * 256
                  + unat x5) * 256 + unat x6) * 256 + unat x7) * 256 + unat x8, 9)"
    using read_header_nibbles[OF u(4) assms, of "x1 # x2 # x3 # x4 # x5 # x6 # x7 # x8 # rest"]
    by (simp add: unpack_be_def del: of_nat_add of_nat_mult)
qed




section \<open>Bytes after a value, and well-formed Object payloads\<close>

lemma decode_int_Nil: "decode_int base [] = Inl IntValueError"
  by (simp add: decode_int_def decode_ascii_def py_int_def strip_sign_def strip_hex_prefix_def)

lemma take_take_le: "k \<le> sz \<Longrightarrow> take sz xs = take sz ys \<Longrightarrow> take k xs = take k ys"
  by (metis min.absorb1 take_take)

lemma drop_take_eq:
  "take sz xs = take sz ys \<Longrightarrow> take (sz - k) (drop k xs) = take (sz - k) (drop k ys)"
  by (metis drop_take)

lemma payload_value_agree:
  assumes pv: "payload_value F t sz rest = Inr v"
    and tk: "take sz rest' = take sz rest"
    and nx: "t = Int5 \<Longrightarrow> sz < length rest' \<Longrightarrow> rest' ! sz \<noteq> 0x78"
  shows "payload_value F t sz rest' = Inr v"
proof (cases "t = Int5")
  case False
  with pv tk show ?thesis
    by (cases t) (simp_all add: payload_value_def)
next
  case True
  show ?thesis
  proof (cases "2 \<le> sz")
    case big: True
    have "take 2 rest' = take 2 rest" using big tk by (rule take_take_le)
    moreover have "take (sz - 2) (drop 2 rest') = take (sz - 2) (drop 2 rest)"
      using tk by (rule drop_take_eq)
    ultimately show ?thesis using pv True tk
      by (auto simp: payload_value_def split: if_splits)
  next
    case small: False
    have n16: "take 2 rest \<noteq> [0x30, 0x78]"
      using pv True small by (auto simp: payload_value_def decode_int_Nil)
    then have pv10: "decode_int 10 (take sz rest) = Inr v"
      using pv True by (simp add: payload_value_def)
    have "take sz rest \<noteq> []"
    proof
      assume "take sz rest = []"
      with pv10 show False by (simp add: decode_int_Nil)
    qed
    with small have sz: "sz = 1" by (cases sz) auto
    have "take 2 rest' \<noteq> [0x30, 0x78]"
    proof
      assume e: "take 2 rest' = [0x30, 0x78]"
      then have "1 < length rest'" by (cases rest'; cases "tl rest'") auto
      moreover from e have "rest' ! 1 = 0x78" by (cases rest'; cases "tl rest'") auto
      ultimately show False using nx[OF True] sz by simp
    qed
    with pv10 tk True show ?thesis by (simp add: payload_value_def)
  qed
qed

lemma payload_value_Int5: "payload_value F Int5 sz rest = Inr v \<Longrightarrow> \<exists>i. v = PyInt i"
  by (auto simp: payload_value_def decode_int_def split: if_splits option.splits sum.splits)

lemma u_read_jsonb_agree:
  assumes ok: "u_read_jsonb F b = Inr (v, c)"
    and tk: "take c b' = take c b"
    and nx: "(\<exists>i. v = PyInt i) \<Longrightarrow> c < length b' \<Longrightarrow> b' ! c \<noteq> 0x78"
  shows "u_read_jsonb F b' = Inr (v, c)"
proof -
  from ok obtain t sz off where h: "read_header b = Inr (t, sz, off)"
    and pv: "payload_value F t sz (drop off b) = Inr v" and c: "c = off + sz"
    by (auto simp: u_read_jsonb_header split: sum.splits)
  have "take off b' = take off b" using tk c take_take_le[of off c b' b] by simp
  with h have h': "read_header b' = Inr (t, sz, off)" by (rule read_header_agree)
  have tk': "take sz (drop off b') = take sz (drop off b)"
    using tk drop_take_eq[of c b' b off] c by simp
  have "payload_value F t sz (drop off b') = Inr v"
  proof (rule payload_value_agree[OF pv tk'])
    assume t: "t = Int5" and l: "sz < length (drop off b')"
    from t pv have "\<exists>i. v = PyInt i" by (auto dest: payload_value_Int5)
    moreover from l c have "c < length b'" by simp
    ultimately have "b' ! c \<noteq> 0x78" by (rule nx)
    then show "drop off b' ! sz \<noteq> 0x78" using l c by (simp add: add.commute)
  qed
  with h' c show ?thesis by (simp add: u_read_jsonb_header)
qed

lemma text_first_byte:
  assumes "u_read_jsonb F kb = Inr (PyStr s, n)"
  shows "kb \<noteq> [] \<and> kb ! 0 \<noteq> 0x78"
proof -
  from assms obtain t sz off where h: "read_header kb = Inr (t, sz, off)"
    and pv: "payload_value F t sz (drop off kb) = Inr (PyStr s)"
    by (auto simp: u_read_jsonb_header split: sum.splits)
  from h obtain w bs where kb: "kb = w # bs" by (cases kb) (auto simp: read_header_def)
  from pv have "t = Text \<or> t = TextRaw"
    by (cases t) (auto simp: payload_value_def decode_int_def decode_float_def
        split: if_splits option.splits sum.splits)
  moreover from h kb have "JsonbType_of (unat w mod 16) = Some t"
    by (auto dest: read_header_type)
  ultimately have "unat w mod 16 = 7 \<or> unat w mod 16 = 10"
    by (auto simp: JsonbType_of_def split: if_splits)
  then have "w \<noteq> 0x78" by auto
  with kb show ?thesis by simp
qed

lemma dict_contains_text:
  assumes "map fst res = map PyStr ts"
  shows "dict_contains F res (PyStr s) = Inr (s \<in> set ts)"
proof -
  have "set (map fst res) = PyStr ` set ts" using assms by simp
  then have "(\<exists>k \<in> set (map fst res). py_eq F k (PyStr s)) = (s \<in> set ts)"
    by (simp only:) auto
  then show ?thesis by (simp add: dict_contains_def)
qed

lemma pairs_payload_simps [simp]:
  "pairs_payload [] = []"
  "pairs_payload (p # items) = key_bytes p @ value_bytes p @ pairs_payload items"
  by (simp_all add: pairs_payload_def)

lemma object_loop_items:
  assumes "list_all (pair_ok F) items"
    and "map fst res = map PyStr ts"
  shows "object_loop F (pre @ pairs_payload items)
           (length pre + length (pairs_payload items)) (length pre) res =
         (if distinct (map key_text items) \<and> set (map key_text items) \<inter> set ts = {}
          then Inr (res @ map (\<lambda>p. (PyStr (key_text p), value_of p)) items)
          else Inl KeyAlreadyInObject)"
  using assms
proof (induction items arbitrary: pre res ts)
  case Nil
  show ?case by (simp add: object_loop.simps[of F pre "length pre" "length pre" res])
next
  case (Cons it items)
  define kb where "kb = key_bytes it"
  define vb where "vb = value_bytes it"
  define s where "s = key_text it"
  define v where "v = value_of it"
  define P where "P = pairs_payload items"
  from Cons.prems(1) have ok: "pair_ok F it" and rest: "list_all (pair_ok F) items"
    by simp_all
  from ok have k: "u_read_jsonb F kb = Inr (PyStr s, length kb)"
    and vv: "u_read_jsonb F vb = Inr (v, length vb)"
    by (simp_all add: pair_ok_def kb_def vb_def s_def v_def)
  from k have kb1: "1 \<le> length kb" by (rule consumed_positive)
  from vv have vb1: "1 \<le> length vb" by (rule consumed_positive)
  have key: "u_read_jsonb F (kb @ vb @ P) = Inr (PyStr s, length kb)"
    by (rule u_read_jsonb_agree[OF k]) simp_all
  have P_first: "P ! 0 \<noteq> 0x78" if "P \<noteq> []"
  proof (cases items)
    case Nil
    with that show ?thesis by (simp add: P_def)
  next
    case (Cons it' items')
    with rest have "u_read_jsonb F (key_bytes it')
        = Inr (PyStr (key_text it'), length (key_bytes it'))"
      by (simp add: pair_ok_def)
    then have "key_bytes it' \<noteq> [] \<and> key_bytes it' ! 0 \<noteq> 0x78" by (rule text_first_byte)
    then show ?thesis by (simp add: P_def Cons nth_append)
  qed
  have val: "u_read_jsonb F (vb @ P) = Inr (v, length vb)"
  proof (rule u_read_jsonb_agree[OF vv])
    show "take (length vb) (vb @ P) = take (length vb) vb" by simp
  next
    assume "length vb < length (vb @ P)"
    then have "P \<noteq> []" by auto
    then show "(vb @ P) ! length vb \<noteq> 0x78" using P_first by (simp add: nth_append)
  qed
  have dc: "dict_contains F res (PyStr s) = Inr (s \<in> set ts)"
    using Cons.prems(2) by (rule dict_contains_text)
  let ?inner = "pre @ kb @ vb @ P"
  let ?sz = "length pre + (length kb + (length vb + length P))"
  have step: "object_loop F ?inner ?sz (length pre) res =
      (if s \<in> set ts then Inl KeyAlreadyInObject
       else object_loop F ?inner ?sz (length pre + length kb + length vb) (res @ [(PyStr s, v)]))"
  proof -
    from kb1 have "kb \<noteq> []" by auto
    moreover from vb1 have "vb \<noteq> []" by auto
    ultimately show ?thesis
      by (subst object_loop.simps) (simp add: key val dc)
  qed
  have ih: "object_loop F ((pre @ kb @ vb) @ P) (length (pre @ kb @ vb) + length P)
              (length (pre @ kb @ vb)) (res @ [(PyStr s, v)]) =
      (if distinct (map key_text items) \<and> set (map key_text items) \<inter> set (ts @ [s]) = {}
       then Inr ((res @ [(PyStr s, v)]) @ map (\<lambda>p. (PyStr (key_text p), value_of p)) items)
       else Inl KeyAlreadyInObject)"
    unfolding P_def
    by (rule Cons.IH[OF rest]) (simp add: Cons.prems(2))
  have "object_loop F ?inner ?sz (length pre) res =
      (if distinct (s # map key_text items) \<and> set (s # map key_text items) \<inter> set ts = {}
       then Inr (res @ (PyStr s, v) # map (\<lambda>p. (PyStr (key_text p), value_of p)) items)
       else Inl KeyAlreadyInObject)"
    using ih unfolding step by (auto simp: add.assoc)
  then show ?case by (simp add: P_def kb_def vb_def s_def v_def)
qed

section \<open>Decimal literals\<close>

lemma scan_all_digits:
  "\<forall>d \<in> set ds. d < 10 \<Longrightarrow>
   scan_digits 10 False acc (map (\<lambda>d. 48 + d) ds) = Some (acc @ ds, [])"
  by (induction ds arbitrary: acc) (auto simp: scan_digits.simps is_digit_def digit_value_def)

lemma py_int_core:
  assumes "strip_sign (dropWhile py_isspace s) = (neg, s1)"
    and "strip_hex_prefix base s1 = c # cs" and "c \<noteq> 95"
    and "scan_digits base False [] (c # cs) = Some (ds, rest)"
    and "ds \<noteq> []" and "dropWhile py_isspace rest = []"
    and "\<not> (base = 10 \<and> length ds > int_max_str_digits)"
  shows "py_int base s
           = Inr (if neg then - int (foldl (\<lambda>a d. a * base + d) 0 ds)
                  else int (foldl (\<lambda>a d. a * base + d) 0 ds))"
  using assms by (simp add: py_int_def)

lemma strip_hex_prefix_10: "strip_hex_prefix 10 s = s"
  by (simp add: strip_hex_prefix_def split: list.splits)

lemma py_int_decimal:
  assumes sg: "sg = [] \<or> sg = [43] \<or> sg = [45]"
    and ne: "ds \<noteq> []" and dg: "\<forall>d \<in> set ds. d < 10"
    and lim: "length ds \<le> int_max_str_digits"
  shows "py_int 10 (sg @ map (\<lambda>d. 48 + d) ds)
           = Inr ((if sg = [45] then - 1 else 1) * int (foldl (\<lambda>a d. a * 10 + d) 0 ds))"
proof -
  from ne obtain d0 ds' where ds: "ds = d0 # ds'" by (cases ds) auto
  with dg have d0: "d0 < 10" by simp
  let ?body = "map (\<lambda>d. 48 + d) ds"
  have sp: "dropWhile py_isspace (sg @ ?body) = sg @ ?body"
    using sg d0 by (auto simp: ds py_isspace_def)
  have ss: "strip_sign (sg @ ?body) = (sg = [45], ?body)"
    using sg d0 by (auto simp: ds strip_sign_def)
  have sc: "scan_digits 10 False [] ?body = Some (ds, [])"
    using scan_all_digits[OF dg, of "[]"] by simp
  have b0: "strip_hex_prefix 10 ?body = (48 + d0) # map (\<lambda>d. 48 + d) ds'"
    by (simp add: ds strip_hex_prefix_10)
  have sc': "scan_digits 10 False [] ((48 + d0) # map (\<lambda>d. 48 + d) ds') = Some (ds, [])"
    using sc by (simp add: ds)
  have "py_int 10 (sg @ ?body)
           = Inr (if sg = [45] then - int (foldl (\<lambda>a d. a * 10 + d) 0 ds)
                  else int (foldl (\<lambda>a d. a * 10 + d) 0 ds))"
    using lim ne d0 by (intro py_int_core[OF _ b0 _ sc']) (simp_all add: sp ss)
  then show ?thesis by simp
qed

lemma decode_ascii_Some:
  "\<forall>x \<in> set bs. unat x < 128 \<Longrightarrow> decode_ascii bs = Some (map unat bs)"
  by (simp add: decode_ascii_def)

lemma is_dec_digit: "is_dec c \<Longrightarrow> c \<noteq> 95 \<and> is_digit 10 c \<and> digit_value c = Some (c - 48)"
  by (auto simp: is_dec_def is_digit_def digit_value_def)

lemma is_digit_dec: "is_digit 10 c \<Longrightarrow> is_dec c \<and> the (digit_value c) = c - 48"
  by (auto simp: is_dec_def is_digit_def digit_value_def split: if_splits)

lemma space_not_digit: "py_isspace c \<Longrightarrow> c \<noteq> 95 \<and> \<not> is_digit 10 c \<and> c \<noteq> 43 \<and> c \<noteq> 45"
  by (auto simp: py_isspace_def is_digit_def digit_value_def)

lemma scan_spaces:
  "list_all py_isspace ws \<Longrightarrow> scan_digits 10 False acc ws = Some (acc, ws)"
  by (cases ws) (auto simp: scan_digits.simps dest: space_not_digit)

lemma body_tail_Cons_us:
  "body_tail (95 # body) \<Longrightarrow> body_tail body \<and> body \<noteq> [] \<and> hd body \<noteq> 95"
  by (cases body) (auto simp: body_tail_def)

lemma body_tail_Cons: "body_tail (c # body) \<Longrightarrow> body_tail body"
  by (cases body) (auto simp: body_tail_def)

lemma scan_complete:
  "body_tail body \<Longrightarrow> (prev \<Longrightarrow> body \<noteq> [] \<and> hd body \<noteq> 95) \<Longrightarrow> list_all py_isspace ws \<Longrightarrow>
   scan_digits 10 prev acc (body @ ws) = Some (acc @ body_digits body, ws)"
proof (induction body arbitrary: prev acc)
  case Nil
  then have "\<not> prev" by auto
  with Nil show ?case by (simp add: scan_spaces body_digits_def)
next
  case (Cons c body)
  show ?case
  proof (cases "c = 95")
    case True
    with Cons.prems(2) have np: "\<not> prev" by auto
    from Cons.prems(1) True have t: "body_tail body \<and> body \<noteq> [] \<and> hd body \<noteq> 95"
      using body_tail_Cons_us by blast
    have "scan_digits 10 True acc (body @ ws) = Some (acc @ body_digits body, ws)"
      using t Cons.prems(3) by (intro Cons.IH) auto
    with True np show ?thesis by (simp add: scan_digits.simps body_digits_def)
  next
    case False
    from Cons.prems(1) False have d: "is_dec c" by (simp add: body_tail_def)
    from Cons.prems(1) have t: "body_tail body" by (rule body_tail_Cons)
    have "scan_digits 10 False (acc @ [c - 48]) (body @ ws)
            = Some ((acc @ [c - 48]) @ body_digits body, ws)"
      using t Cons.prems(3) by (intro Cons.IH) auto
    with False is_dec_digit[OF d] show ?thesis
      by (simp add: scan_digits.simps body_digits_def)
  qed
qed

lemma scan_sound:
  "scan_digits 10 prev acc s = Some (ds, rest) \<Longrightarrow>
   \<exists>body. s = body @ rest \<and> body_tail body \<and> (prev \<longrightarrow> body \<noteq> [] \<and> hd body \<noteq> 95)
          \<and> ds = acc @ body_digits body"
proof (induction s arbitrary: prev acc)
  case Nil
  then show ?case
    by (auto simp: scan_digits.simps body_tail_def body_digits_def split: if_splits)
next
  case (Cons c cs)
  show ?case
  proof (cases "c = 95")
    case True
    with Cons.prems have np: "\<not> prev" and sc: "scan_digits 10 True acc cs = Some (ds, rest)"
      by (auto simp: scan_digits.simps split: if_splits)
    from Cons.IH[OF sc] obtain body where b: "cs = body @ rest" "body_tail body"
      "body \<noteq> []" "hd body \<noteq> 95" "ds = acc @ body_digits body" by auto
    have "body_tail (95 # body)" using b(2,3,4) by (cases body) (auto simp: body_tail_def)
    with b np True show ?thesis
      by (intro exI[of _ "95 # body"]) (simp add: body_digits_def)
  next
    case False
    show ?thesis
    proof (cases "is_digit 10 c")
      case dg: True
      with Cons.prems False
      have sc: "scan_digits 10 False (acc @ [the (digit_value c)]) cs = Some (ds, rest)"
        by (simp add: scan_digits.simps)
      from Cons.IH[OF sc] obtain body where b: "cs = body @ rest" "body_tail body"
        "ds = (acc @ [the (digit_value c)]) @ body_digits body" by auto
      from is_digit_dec[OF dg] have d: "is_dec c" "the (digit_value c) = c - 48" by auto
      have "body_tail (c # body)" using b(2) d(1) False by (cases body) (auto simp: body_tail_def)
      with b d False show ?thesis
        by (intro exI[of _ "c # body"]) (simp add: body_digits_def)
    next
      case nd: False
      with Cons.prems False have "\<not> prev" "ds = acc" "rest = c # cs"
        by (auto simp: scan_digits.simps split: if_splits)
      then show ?thesis
        by (intro exI[of _ "[]"]) (simp add: body_tail_def body_digits_def)
    qed
  qed
qed


lemma py_int_Inl: "py_int base s = Inl e \<Longrightarrow> e = IntValueError"
  by (auto simp: py_int_def Let_def split: prod.splits list.splits option.splits if_splits)

lemma py_int_Inr:
  assumes "py_int base s = Inr n"
  shows "\<exists>neg s1 c cs ds rest.
           strip_sign (dropWhile py_isspace s) = (neg, s1)
           \<and> strip_hex_prefix base s1 = c # cs \<and> c \<noteq> 95
           \<and> scan_digits base False [] (c # cs) = Some (ds, rest)
           \<and> ds \<noteq> [] \<and> dropWhile py_isspace rest = []
           \<and> \<not> (base = 10 \<and> length ds > int_max_str_digits)
           \<and> n = (if neg then - int (foldl (\<lambda>a d. a * base + d) 0 ds)
                    else int (foldl (\<lambda>a d. a * base + d) 0 ds))"
  using assms
  by (auto simp: py_int_def Let_def split: prod.splits list.splits option.splits if_splits)

lemma strip_sign_cases:
  "strip_sign s = (neg, s1) \<Longrightarrow>
   \<exists>sg. s = sg @ s1 \<and> (sg = [] \<or> sg = [43] \<or> sg = [45]) \<and> neg = (sg = [45])"
  by (auto simp: strip_sign_def split: list.splits if_splits)

lemma digit_body_tail:
  "digit_body body \<longleftrightarrow> body \<noteq> [] \<and> hd body \<noteq> 95 \<and> body_tail body"
  by (auto simp: digit_body_def body_tail_def)

lemma digit_body_hd: "digit_body body \<Longrightarrow> is_dec (hd body)"
  by (cases body) (auto simp: digit_body_def)

lemma py_int_literal:
  assumes "decimal_literal s n"
  shows "py_int 10 s = Inr n"
proof -
  from assms obtain lead sg body trail where s: "s = lead @ sg @ body @ trail"
    and ld: "list_all py_isspace lead" and tr: "list_all py_isspace trail"
    and sg: "sg = [] \<or> sg = [43] \<or> sg = [45]" and db: "digit_body body"
    and lim: "length (body_digits body) \<le> int_max_str_digits"
    and n: "n = (if sg = [45] then - int (foldl (\<lambda>a d. a * 10 + d) 0 (body_digits body))
                 else int (foldl (\<lambda>a d. a * 10 + d) 0 (body_digits body)))"
    unfolding decimal_literal_def by blast
  from db obtain c cs where body: "body = c # cs" by (cases body) (auto simp: digit_body_def)
  from db body have c: "is_dec c" using digit_body_hd[of body] by simp
  then have cn: "c \<noteq> 95" "\<not> py_isspace c" "c \<noteq> 43" "c \<noteq> 45"
    by (auto simp: is_dec_def py_isspace_def)
  have "dropWhile py_isspace s = dropWhile py_isspace (sg @ body @ trail)"
    unfolding s using ld by (intro dropWhile_append2) (simp add: list_all_iff)
  also have "\<dots> = sg @ body @ trail"
    using sg cn by (auto simp: body py_isspace_def)
  finally have sp: "dropWhile py_isspace s = sg @ body @ trail" .
  have ss: "strip_sign (sg @ body @ trail) = (sg = [45], body @ trail)"
    using sg cn by (auto simp: body strip_sign_def)
  have hx: "strip_hex_prefix 10 (body @ trail) = c # (cs @ trail)"
    by (simp add: strip_hex_prefix_10 body)
  have sc: "scan_digits 10 False [] (c # (cs @ trail)) = Some (body_digits body, trail)"
    using scan_complete[of body False trail "[]"] db tr by (simp add: digit_body_tail body)
  have ne: "body_digits body \<noteq> []" using cn by (simp add: body body_digits_def)
  have dt: "dropWhile py_isspace trail = []" using tr by (simp add: list_all_iff)
  have "py_int 10 s
          = Inr (if sg = [45] then - int (foldl (\<lambda>a d. a * 10 + d) 0 (body_digits body))
                 else int (foldl (\<lambda>a d. a * 10 + d) 0 (body_digits body)))"
    using lim by (intro py_int_core[OF _ hx cn(1) sc ne dt]) (simp_all add: sp ss)
  with n show ?thesis by simp
qed

lemma literal_py_int:
  assumes "py_int 10 s = Inr n"
  shows "decimal_literal s n"
proof -
  from py_int_Inr[OF assms] obtain neg s1 c cs ds rest where
    st: "strip_sign (dropWhile py_isspace s) = (neg, s1)"
    and hx: "strip_hex_prefix 10 s1 = c # cs" and c: "c \<noteq> 95"
    and sc: "scan_digits 10 False [] (c # cs) = Some (ds, rest)"
    and ne: "ds \<noteq> []" and dt: "dropWhile py_isspace rest = []"
    and lim: "length ds \<le> int_max_str_digits"
    and n: "n = (if neg then - int (foldl (\<lambda>a d. a * 10 + d) 0 ds)
                 else int (foldl (\<lambda>a d. a * 10 + d) 0 ds))"
    by auto
  from hx have s1: "s1 = c # cs" by (simp add: strip_hex_prefix_10)
  from strip_sign_cases[OF st] obtain sg where
    sg: "dropWhile py_isspace s = sg @ s1" "sg = [] \<or> sg = [43] \<or> sg = [45]" "neg = (sg = [45])"
    by auto
  from scan_sound[OF sc] obtain body where
    b: "c # cs = body @ rest" "body_tail body" "ds = body_digits body" by auto
  from b(3) ne have bne: "body \<noteq> []" by (auto simp: body_digits_def)
  with b(1) have "hd body = c" by (cases body) auto
  with bne b(2) c have db: "digit_body body" by (simp add: digit_body_tail)
  have tr: "list_all py_isspace rest" using dt by (simp add: list_all_iff dropWhile_eq_Nil_conv)
  have ld: "list_all py_isspace (takeWhile py_isspace s)"
    by (simp add: list_all_iff) (meson set_takeWhileD)
  have "s = takeWhile py_isspace s @ sg @ body @ rest"
    using sg(1) s1 b(1) takeWhile_dropWhile_id[of py_isspace s] by simp
  with ld tr sg(2,3) db lim n b(3) show ?thesis
    unfolding decimal_literal_def
    by (intro exI[of _ "takeWhile py_isspace s"] exI[of _ sg] exI[of _ body] exI[of _ rest])
       simp
qed

lemma decimal_literal_ascii:
  assumes "decimal_literal s n"
  shows "\<forall>c \<in> set s. c < 128"
proof -
  from assms obtain lead sg body trail where s: "s = lead @ sg @ body @ trail"
    and ld: "list_all py_isspace lead" and tr: "list_all py_isspace trail"
    and sg: "sg = [] \<or> sg = [43] \<or> sg = [45]" and db: "digit_body body"
    unfolding decimal_literal_def by blast
  have sp: "py_isspace c \<Longrightarrow> c < 128" for c by (auto simp: py_isspace_def)
  have dg: "is_dec c \<or> c = 95 \<Longrightarrow> c < 128" for c by (auto simp: is_dec_def)
  have "\<forall>c \<in> set lead. c < 128" using ld sp by (auto simp: list_all_iff)
  moreover have "\<forall>c \<in> set trail. c < 128" using tr sp by (auto simp: list_all_iff)
  moreover have "\<forall>c \<in> set sg. c < 128" using sg by auto
  moreover have "\<forall>c \<in> set body. c < 128"
    using db dg by (auto simp: digit_body_def list_all_iff)
  ultimately show ?thesis unfolding s by auto
qed

lemma decode_int_Inr:
  assumes "decode_int base bs = Inr v"
  shows "\<exists>n. decode_ascii bs = Some (map unat bs) \<and> py_int base (map unat bs) = Inr n
             \<and> v = PyInt n"
proof (cases "decode_ascii bs")
  case None
  with assms show ?thesis by (simp add: decode_int_def)
next
  case (Some s)
  then have s: "s = map unat bs" by (simp add: decode_ascii_def split: if_splits)
  show ?thesis
  proof (cases "py_int base s")
    case (Inl e)
    with assms Some show ?thesis by (simp add: decode_int_def)
  next
    case (Inr n)
    with assms Some s show ?thesis by (simp add: decode_int_def)
  qed
qed

lemma decode_int_Inl:
  assumes "decode_int base bs = Inl e"
  shows "e = AsciiDecodeError \<or> e = IntValueError"
proof (cases "decode_ascii bs")
  case None
  with assms show ?thesis by (simp add: decode_int_def)
next
  case (Some s)
  show ?thesis
  proof (cases "py_int base s")
    case (Inl e')
    with assms Some py_int_Inl[OF Inl] show ?thesis by (simp add: decode_int_def)
  next
    case (Inr n)
    with assms Some show ?thesis by (simp add: decode_int_def)
  qed
qed

lemma u_read_jsonb_Nil: "u_read_jsonb F [] = Inl EmptyBuffer"
  by (simp add: u_read_jsonb.simps read_header_def)



lemmas reader_eval =
  u_read_jsonb.simps array_loop.simps object_loop.simps scan_digits.simps read_jsonb_def read_header_def
  JsonbType_of_def py_slice_def unpack_be_def decode_text_def decode_int_def decode_float_def
  decode_ascii_def py_int_def strip_sign_def strip_hex_prefix_def py_isspace_def is_digit_def
  digit_value_def int_max_str_digits_def dict_contains_def is_cont_def no_floats_def

section \<open>The claims\<close>

subsection \<open>C1: a payload shorter than its declared size\<close>

text \<open>
  C1, as the code has it. The reader never compares the declared size with the bytes that
  remain: every payload is a slice, and a slice that reaches past the end is cut short
  without an error. So for a buffer whose header declares more payload bytes than remain,
  the bytes that do remain are the payload, for every type:
  \<^item> a Text, TextRaw, Int, Float or Float5 value is decoded from them, and so is an Int5,
    after its \<open>0x\<close> prefix when they begin with one; a success returns the header
    length plus the declared size;
  \<^item> Null and Bool fail because the declared size is not zero, and TextJ, Text5 and
    the reserved types fail as they always do;
  \<^item> an Array or Object runs its loop over them with the declared size as the bound.
    When the cursor has reached their end and is still below the declared size, the next
    child is read from an empty buffer and the call fails with the ValueError of line
    59: in the Array loop, and in the Object loop before a key and before a value.
\<close>

theorem truncated_payload_decodes_remaining:
  assumes "read_header b = Inr (t, sz, off)" and "length b < off + sz"
  shows "(t = Text \<or> t = TextRaw \<longrightarrow>
            u_read_jsonb F b =
              (case decode_text (drop off b) of Inl e \<Rightarrow> Inl e | Inr v \<Rightarrow> Inr (v, off + sz)))
       \<and> (t = IntT \<longrightarrow>
            u_read_jsonb F b =
              (case decode_int 10 (drop off b) of Inl e \<Rightarrow> Inl e | Inr v \<Rightarrow> Inr (v, off + sz)))
       \<and> (t = Int5 \<longrightarrow>
            u_read_jsonb F b =
              (case (if take 2 (drop off b) = [0x30, 0x78] then decode_int 16 (drop (off + 2) b)
                     else decode_int 10 (drop off b)) of
                 Inl e \<Rightarrow> Inl e | Inr v \<Rightarrow> Inr (v, off + sz)))
       \<and> (t = Float \<or> t = Float5 \<longrightarrow>
            u_read_jsonb F b =
              (case decode_float F (drop off b) of Inl e \<Rightarrow> Inl e | Inr v \<Rightarrow> Inr (v, off + sz)))
       \<and> (t = Null \<longrightarrow> u_read_jsonb F b = Inl NullNonZeroSize)
       \<and> (t = Bool_True \<or> t = Bool_False \<longrightarrow> u_read_jsonb F b = Inl BoolNonZeroSize)
       \<and> (t = TextJ \<longrightarrow> u_read_jsonb F b = Inl TextJNotImplemented)
       \<and> (t = Text5 \<longrightarrow> u_read_jsonb F b = Inl Text5NotImplemented)
       \<and> (t = RESERVED_13 \<or> t = RESERVED_14 \<or> t = RESERVED_15 \<longrightarrow>
            u_read_jsonb F b = Inl UnexpectedJsonType)
       \<and> (t = Array \<longrightarrow>
            u_read_jsonb F b =
              (case array_loop F (drop off b) sz 0 [] of
                 Inl e \<Rightarrow> Inl e | Inr r \<Rightarrow> Inr (PyList r, off + sz)))
       \<and> (t = Object \<longrightarrow>
            u_read_jsonb F b =
              (case object_loop F (drop off b) sz 0 [] of
                 Inl e \<Rightarrow> Inl e | Inr r \<Rightarrow> Inr (PyDict r, off + sz)))
       \<and> (length b - off \<le> c \<and> c < sz \<longrightarrow>
            array_loop F (drop off b) sz c acc = Inl EmptyBuffer
            \<and> object_loop F (drop off b) sz c res = Inl EmptyBuffer)
       \<and> (c < sz \<and> u_read_jsonb F (drop c (drop off b)) = Inr (k, kn) \<and> c + kn < sz
            \<and> length b - off \<le> c + kn \<longrightarrow>
            object_loop F (drop off b) sz c res = Inl EmptyBuffer)"
proof -
  from assms(2) have tk: "take sz (drop off b) = drop off b" by simp
  from assms(2) have tk2: "take (sz - 2) (drop (Suc (Suc off)) b) = drop (Suc (Suc off)) b"
    by simp
  from assms(2) read_header_offset[OF assms(1)] have nz: "sz \<noteq> 0" by auto
  have u: "u_read_jsonb F b =
      (case payload_value F t sz (drop off b) of Inl e \<Rightarrow> Inl e | Inr v \<Rightarrow> Inr (v, off + sz))"
    using assms(1) by (simp add: u_read_jsonb_header)
  have scal: "(t = Text \<or> t = TextRaw \<longrightarrow>
            u_read_jsonb F b =
              (case decode_text (drop off b) of Inl e \<Rightarrow> Inl e | Inr v \<Rightarrow> Inr (v, off + sz)))
       \<and> (t = IntT \<longrightarrow>
            u_read_jsonb F b =
              (case decode_int 10 (drop off b) of Inl e \<Rightarrow> Inl e | Inr v \<Rightarrow> Inr (v, off + sz)))
       \<and> (t = Float \<or> t = Float5 \<longrightarrow>
            u_read_jsonb F b =
              (case decode_float F (drop off b) of Inl e \<Rightarrow> Inl e | Inr v \<Rightarrow> Inr (v, off + sz)))
       \<and> (t = Null \<longrightarrow> u_read_jsonb F b = Inl NullNonZeroSize)
       \<and> (t = Bool_True \<or> t = Bool_False \<longrightarrow> u_read_jsonb F b = Inl BoolNonZeroSize)
       \<and> (t = TextJ \<longrightarrow> u_read_jsonb F b = Inl TextJNotImplemented)
       \<and> (t = Text5 \<longrightarrow> u_read_jsonb F b = Inl Text5NotImplemented)
       \<and> (t = RESERVED_13 \<or> t = RESERVED_14 \<or> t = RESERVED_15 \<longrightarrow>
            u_read_jsonb F b = Inl UnexpectedJsonType)"
    using tk nz by (auto simp: u payload_value_def)
  have i5: "t = Int5 \<longrightarrow>
            u_read_jsonb F b =
              (case (if take 2 (drop off b) = [0x30, 0x78] then decode_int 16 (drop (off + 2) b)
                     else decode_int 10 (drop off b)) of
                 Inl e \<Rightarrow> Inl e | Inr v \<Rightarrow> Inr (v, off + sz))"
    using tk tk2 by (simp add: u payload_value_def)
  have comp: "(t = Array \<longrightarrow>
            u_read_jsonb F b =
              (case array_loop F (drop off b) sz 0 [] of
                 Inl e \<Rightarrow> Inl e | Inr r \<Rightarrow> Inr (PyList r, off + sz)))
       \<and> (t = Object \<longrightarrow>
            u_read_jsonb F b =
              (case object_loop F (drop off b) sz 0 [] of
                 Inl e \<Rightarrow> Inl e | Inr r \<Rightarrow> Inr (PyDict r, off + sz)))"
    using tk by (auto simp: u payload_value_def split: sum.splits)
  have e1: "length b - off \<le> c \<and> c < sz \<longrightarrow>
            array_loop F (drop off b) sz c acc = Inl EmptyBuffer
            \<and> object_loop F (drop off b) sz c res = Inl EmptyBuffer"
  proof
    assume a: "length b - off \<le> c \<and> c < sz"
    then have "drop c (drop off b) = []" by auto
    then have r: "u_read_jsonb F (drop c (drop off b)) = Inl EmptyBuffer"
      by (simp only: u_read_jsonb_Nil)
    have "array_loop F (drop off b) sz c acc = Inl EmptyBuffer"
      using a r by (subst array_loop.simps) simp
    moreover have "object_loop F (drop off b) sz c res = Inl EmptyBuffer"
      using a r by (subst object_loop.simps) simp
    ultimately show "array_loop F (drop off b) sz c acc = Inl EmptyBuffer
            \<and> object_loop F (drop off b) sz c res = Inl EmptyBuffer" by simp
  qed
  have e2: "c < sz \<and> u_read_jsonb F (drop c (drop off b)) = Inr (k, kn) \<and> c + kn < sz
            \<and> length b - off \<le> c + kn \<longrightarrow>
            object_loop F (drop off b) sz c res = Inl EmptyBuffer"
  proof
    assume a: "c < sz \<and> u_read_jsonb F (drop c (drop off b)) = Inr (k, kn) \<and> c + kn < sz
            \<and> length b - off \<le> c + kn"
    then have "drop (c + kn) (drop off b) = []" by auto
    then have "u_read_jsonb F (drop (c + kn) (drop off b)) = Inl EmptyBuffer"
      by (simp only: u_read_jsonb_Nil)
    with a show "object_loop F (drop off b) sz c res = Inl EmptyBuffer"
      by (subst object_loop.simps) simp
  qed
  from scal i5 comp e1 e2 show ?thesis by blast
qed

text \<open>
  The theorem at the buffer of the claim's example (a Text header declaring 10 bytes,
  followed by the 5 bytes of \<open>hello\<close>), at an Int5 declaring 5 bytes followed by \<open>0x1\<close>,
  at an Array declaring 5 bytes that holds one Null, and at an Object declaring 5 bytes
  that holds one key.
\<close>

theorem truncated_payload_witness:
  "read_header [0xA7, 0x68, 0x65, 0x6C, 0x6C, 0x6F] = Inr (Text, 10, 1)
   \<and> length [0xA7, 0x68, 0x65, 0x6C, 0x6C, 0x6F :: byte] < 1 + 10
   \<and> u_read_jsonb no_floats [0xA7, 0x68, 0x65, 0x6C, 0x6C, 0x6F]
       = Inr (PyStr [104, 101, 108, 108, 111], 1 + 10)
   \<and> read_header [0x54, 0x30, 0x78, 0x31] = Inr (Int5, 5, 1)
   \<and> length [0x54, 0x30, 0x78, 0x31 :: byte] < 1 + 5
   \<and> u_read_jsonb no_floats [0x54, 0x30, 0x78, 0x31] = Inr (PyInt 1, 1 + 5)
   \<and> read_header [0x5B, 0x00] = Inr (Array, 5, 1)
   \<and> length [0x5B, 0x00 :: byte] < 1 + 5
   \<and> array_loop no_floats (drop 1 [0x5B, 0x00]) 5 1 [PyNone] = Inl EmptyBuffer
   \<and> u_read_jsonb no_floats [0x5B, 0x00] = Inl EmptyBuffer
   \<and> read_header [0x5C, 0x17, 0x61] = Inr (Object, 5, 1)
   \<and> length [0x5C, 0x17, 0x61 :: byte] < 1 + 5
   \<and> u_read_jsonb no_floats (drop 0 (drop 1 [0x5C, 0x17, 0x61])) = Inr (PyStr [97], 2)
   \<and> u_read_jsonb no_floats [0x5C, 0x17, 0x61] = Inl EmptyBuffer"
proof -
  have h: "read_header [0xA7, 0x68, 0x65, 0x6C, 0x6C, 0x6F] = Inr (Text, 10, 1)"
    by (simp add: read_header_def JsonbType_of_def)
  have l: "length [0xA7, 0x68, 0x65, 0x6C, 0x6C, 0x6F :: byte] < 1 + 10" by simp
  have h5: "read_header [0x54, 0x30, 0x78, 0x31] = Inr (Int5, 5, 1)"
    by (simp add: read_header_def JsonbType_of_def)
  have l5: "length [0x54, 0x30, 0x78, 0x31 :: byte] < 1 + 5" by simp
  have ha: "read_header [0x5B, 0x00] = Inr (Array, 5, 1)"
    by (simp add: read_header_def JsonbType_of_def)
  have la: "length [0x5B, 0x00 :: byte] < 1 + 5" by simp
  have ho: "read_header [0x5C, 0x17, 0x61] = Inr (Object, 5, 1)"
    by (simp add: read_header_def JsonbType_of_def)
  have lo: "length [0x5C, 0x17, 0x61 :: byte] < 1 + 5" by simp
  have ko: "u_read_jsonb no_floats (drop 0 (drop 1 [0x5C, 0x17, 0x61])) = Inr (PyStr [97], 2)"
    by (simp add: reader_eval)
  have n0: "u_read_jsonb no_floats [0x00] = Inr (PyNone, 1)"
    by (simp add: reader_eval)
  have d16: "decode_int 16 [0x31] = (Inr (PyInt 1) :: error + unit pyval)"
    by (simp add: reader_eval)
  from truncated_payload_decodes_remaining [OF h l, of no_floats 0 "[]" "[]" PyNone 0] h
  have a: "u_read_jsonb no_floats [0xA7, 0x68, 0x65, 0x6C, 0x6C, 0x6F]
       = Inr (PyStr [104, 101, 108, 108, 111], 1 + 10)"
    by (simp add: decode_text_def)
  from truncated_payload_decodes_remaining [OF h5 l5, of no_floats 0 "[]" "[]" PyNone 0] d16
  have b: "u_read_jsonb no_floats [0x54, 0x30, 0x78, 0x31] = Inr (PyInt 1, 1 + 5)"
    by simp
  note ta = truncated_payload_decodes_remaining [OF ha la, of no_floats 1 "[PyNone]" "[]" PyNone 0]
  from ta have c1: "array_loop no_floats (drop 1 [0x5B, 0x00]) 5 1 [PyNone] = Inl EmptyBuffer"
    by simp
  have "array_loop no_floats (drop 1 [0x5B, 0x00]) 5 0 [] = Inl EmptyBuffer"
    using c1 n0 by (subst array_loop.simps) simp
  with ta have c: "u_read_jsonb no_floats [0x5B, 0x00] = Inl EmptyBuffer"
    by simp
  note to = truncated_payload_decodes_remaining
    [OF ho lo, of no_floats 0 "[]" "[]" "PyStr [97]" 2]
  from to ko have "object_loop no_floats (drop 1 [0x5C, 0x17, 0x61]) 5 0 [] = Inl EmptyBuffer"
    by simp
  with to have d: "u_read_jsonb no_floats [0x5C, 0x17, 0x61] = Inl EmptyBuffer"
    by simp
  from h l a h5 l5 b ha la c1 c ho lo ko d show ?thesis by blast
qed

text \<open>
  C1 as stated fails on that buffer: the call returns the str \<open>hello\<close> and the count 11
  instead of failing.
\<close>

theorem truncated_payload_counterexample:
  "u_read_jsonb no_floats [0xA7, 0x68, 0x65, 0x6C, 0x6C, 0x6F]
     = Inr (PyStr [104, 101, 108, 108, 111], 11)"
  by (simp add: reader_eval)

subsection \<open>C5: the tags TextJ and Text5\<close>

text \<open>
  C5, as the code has it. The size prefix is read before the type is looked at (lines
  63-78 come before line 103). A buffer whose first byte has low nibble 8 or 9 fails with
  NotImplementedError whatever the payload is, provided the size prefix announced by the
  high nibble is present; a buffer cut inside the size prefix fails with IndexError
  (selector 12) or \<open>struct.error\<close> (selectors 13, 14, 15) instead.
\<close>

theorem unsupported_tag_after_header:
  assumes "b \<noteq> []"
    and "unat (b ! 0 AND 0x0f) = 8 \<or> unat (b ! 0 AND 0x0f) = 9"
  shows "u_read_jsonb F b =
     (if unat (drop_bit 4 (b ! 0 AND 0xf0)) = 12 \<and> length b < 2 then Inl IndexError
      else if (unat (drop_bit 4 (b ! 0 AND 0xf0)) = 13 \<and> length b < 3)
              \<or> (unat (drop_bit 4 (b ! 0 AND 0xf0)) = 14 \<and> length b < 5)
              \<or> (unat (drop_bit 4 (b ! 0 AND 0xf0)) = 15 \<and> length b < 9)
           then Inl StructError
      else if unat (b ! 0 AND 0x0f) = 8 then Inl TextJNotImplemented
      else Inl Text5NotImplemented)"
proof -
  from assms(1) obtain w bs where b: "b = w # bs" by (cases b) auto
  define tg where "tg = (if unat w mod 16 = 8 then TextJ else Text5)"
  define err where "err = (if unat w mod 16 = 8 then TextJNotImplemented else Text5NotImplemented)"
  from assms(2) have t: "JsonbType_of (unat w mod 16) = Some tg"
    by (auto simp: b lo_nibble JsonbType_of_def tg_def)
  have pv: "payload_value F tg sz r = Inl err" for sz r
    by (simp add: payload_value_def tg_def err_def)
  have lhs: "u_read_jsonb F b =
      (case read_header (w # bs) of Inl e \<Rightarrow> Inl e | Inr x \<Rightarrow> Inl err)"
  proof (cases "read_header (w # bs)")
    case (Inl e)
    then show ?thesis by (simp add: u_read_jsonb_header b)
  next
    case (Inr x)
    obtain a sz off where x: "x = (a, sz, off)" by (cases x)
    from Inr x t read_header_type[of w bs a sz off] have "a = tg" by simp
    then show ?thesis by (simp add: u_read_jsonb_header b Inr x pv)
  qed
  have len: "length b = Suc (length bs)" by (simp add: b)
  have n: "(unpack_be k (take k bs) = None) = (length bs < k)" for k
    by (rule unpack_be_None)
  have rh: "read_header (w # bs) =
      (if unat w div 16 \<le> 11 then Inr (tg, unat w div 16, 1)
       else if unat w div 16 = 12 then
         (if bs = [] then Inl IndexError else Inr (tg, unat (hd bs), 2))
       else if length bs < header_len w - 1 then Inl StructError
       else Inr (tg, the (unpack_be (header_len w - 1) (take (header_len w - 1) bs)),
                 header_len w))"
  proof (cases "unat w div 16 \<le> 11 \<or> unat w div 16 = 12")
    case True
    then show ?thesis by (cases bs) (auto simp: read_header_Cons t)
  next
    case False
    show ?thesis
    proof (cases "length bs < header_len w - 1")
      case True
      then have "unpack_be (header_len w - 1) (take (header_len w - 1) bs) = None"
        by (simp only: n)
      with False True show ?thesis by (simp add: read_header_Cons t)
    next
      case F2: False
      then obtain a where "unpack_be (header_len w - 1) (take (header_len w - 1) bs) = Some a"
        using n[of "header_len w - 1"]
        by (cases "unpack_be (header_len w - 1) (take (header_len w - 1) bs)") auto
      with False F2 show ?thesis by (simp add: read_header_Cons t)
    qed
  qed
  have S: "unat (drop_bit 4 (b ! 0 AND 0xf0)) = unat w div 16"
    by (simp only: b nth_Cons_0 hi_nibble)
  have T: "unat (b ! 0 AND 0x0f) = unat w mod 16"
    by (simp only: b nth_Cons_0 lo_nibble)
  from selector_cases[of w] show ?thesis
    unfolding lhs rh S T len by (cases bs) (auto simp: header_len_def err_def)
qed

text \<open>The theorem at a TextJ header of size 5 followed by one byte.\<close>

theorem unsupported_tag_witness:
  "[0x58, 0x41 :: byte] \<noteq> [] \<and> unat ([0x58, 0x41 :: byte] ! 0 AND 0x0f) = 8
   \<and> u_read_jsonb no_floats [0x58, 0x41] = Inl TextJNotImplemented"
  using unsupported_tag_after_header [of "[0x58, 0x41]" no_floats]
  by simp

text \<open>
  C5 as stated fails on a TextJ byte with selector 12 and nothing after it, and on a Text5
  byte with selector 13 and one byte after it: neither call reaches the type dispatch.
\<close>

theorem unsupported_tag_counterexample:
  "u_read_jsonb no_floats [0xC8] = Inl IndexError
   \<and> u_read_jsonb no_floats [0xD9, 0x00] = Inl StructError"
  by (simp add: reader_eval)

subsection \<open>C2: a child that reaches past the declared payload size\<close>

text \<open>
  C2, as the code has it. Both loops test \<open>bytes_consumed < size\<close> before each child and
  nothing else: no error is raised because a child's reported length carries the cursor
  past \<open>size\<close>. An Array element that does so ends the loop and the list is returned
  with it. An Object key that does so fails with the ValueError of line 132. The value of
  an Object pair that does so goes through the key test of lines 135-136 like any other:
  TypeError for a list or dict key, KeyError when an equal key is present, and otherwise
  the loop ends and the mapping is returned with the pair. The last part states the
  Array case for a whole buffer whose first element already reaches \<open>size\<close>.
\<close>

theorem composite_overrun_accepted:
  "(c < sz \<and> u_read_jsonb F (drop c inner) = Inr (el, n) \<and> sz \<le> c + n \<longrightarrow>
      array_loop F inner sz c acc = Inr (acc @ [el]))
   \<and> (c < sz \<and> u_read_jsonb F (drop c inner) = Inr (k, kn) \<and> sz \<le> c + kn \<longrightarrow>
      object_loop F inner sz c res = Inl ObjectRanOutOfData)
   \<and> (c < sz \<and> u_read_jsonb F (drop c inner) = Inr (k, kn) \<and> c + kn < sz
        \<and> u_read_jsonb F (drop (c + kn) inner) = Inr (v, vn) \<and> sz \<le> c + kn + vn \<longrightarrow>
      object_loop F inner sz c res =
        (if \<not> hashable k then Inl UnhashableKey
         else if \<exists>k' \<in> set (map fst res). py_eq F k' k then Inl KeyAlreadyInObject
         else Inr (res @ [(k, v)])))
   \<and> (read_header b = Inr (Array, sz, off) \<and> 0 < sz
        \<and> u_read_jsonb F (py_slice b off (off + sz)) = Inr (el, n) \<and> sz \<le> n \<longrightarrow>
      u_read_jsonb F b = Inr (PyList [el], off + sz))"
proof (intro conjI impI)
  assume "c < sz \<and> u_read_jsonb F (drop c inner) = Inr (el, n) \<and> sz \<le> c + n"
  then show "array_loop F inner sz c acc = Inr (acc @ [el])"
    by (simp add: array_loop.simps[of F inner sz c acc]
                  array_loop.simps[of F inner sz "c + n" "acc @ [el]"])
next
  assume "c < sz \<and> u_read_jsonb F (drop c inner) = Inr (k, kn) \<and> sz \<le> c + kn"
  then show "object_loop F inner sz c res = Inl ObjectRanOutOfData"
    by (simp add: object_loop.simps[of F inner sz c res])
next
  assume "c < sz \<and> u_read_jsonb F (drop c inner) = Inr (k, kn) \<and> c + kn < sz
        \<and> u_read_jsonb F (drop (c + kn) inner) = Inr (v, vn) \<and> sz \<le> c + kn + vn"
  then show "object_loop F inner sz c res =
        (if \<not> hashable k then Inl UnhashableKey
         else if \<exists>k' \<in> set (map fst res). py_eq F k' k then Inl KeyAlreadyInObject
         else Inr (res @ [(k, v)]))"
    by (simp add: object_loop.simps[of F inner sz c res] dict_contains_def
                  object_loop.simps[of F inner sz "c + kn + vn" "res @ [(k, v)]"])
next
  assume a: "read_header b = Inr (Array, sz, off) \<and> 0 < sz
        \<and> u_read_jsonb F (py_slice b off (off + sz)) = Inr (el, n) \<and> sz \<le> n"
  then have "array_loop F (take sz (drop off b)) sz 0 [] = Inr [el]"
    by (simp add: py_slice_def array_loop.simps[of F _ sz 0 "[]"]
                  array_loop.simps[of F _ sz n "[el]"])
  with a show "u_read_jsonb F b = Inr (PyList [el], off + sz)"
    by (simp add: u_read_jsonb_header payload_value_def)
qed

text \<open>
  The theorem at an Array of declared size 1 whose only byte is a Text header of size 2
  (the element reports 3 bytes), at the same payload read as an Object, and at three
  Object payloads whose last value is that Text header: after a Null key (returned),
  after an Array key (TypeError), and after a repeated Text key (KeyError).
\<close>

theorem composite_overrun_witness:
  "u_read_jsonb no_floats (drop 0 [0x27]) = Inr (PyStr [], 3)
   \<and> array_loop no_floats [0x27] 1 0 [] = Inr ([] @ [PyStr []])
   \<and> object_loop no_floats [0x27] 1 0 [] = Inl ObjectRanOutOfData
   \<and> u_read_jsonb no_floats (drop 0 [0x00, 0x27]) = Inr (PyNone, 1)
   \<and> u_read_jsonb no_floats (drop (0 + 1) [0x00, 0x27]) = Inr (PyStr [], 3)
   \<and> object_loop no_floats [0x00, 0x27] 2 0 [] = Inr ([] @ [(PyNone, PyStr [])])
   \<and> u_read_jsonb no_floats (drop 0 [0x0B, 0x27]) = Inr (PyList [], 1)
   \<and> u_read_jsonb no_floats (drop (0 + 1) [0x0B, 0x27]) = Inr (PyStr [], 3)
   \<and> object_loop no_floats [0x0B, 0x27] 2 0 [] = Inl UnhashableKey
   \<and> u_read_jsonb no_floats (drop 3 [0x17, 0x61, 0x00, 0x17, 0x61, 0x27]) = Inr (PyStr [97], 2)
   \<and> u_read_jsonb no_floats (drop (3 + 2) [0x17, 0x61, 0x00, 0x17, 0x61, 0x27]) = Inr (PyStr [], 3)
   \<and> object_loop no_floats [0x17, 0x61, 0x00, 0x17, 0x61, 0x27] 6 3 [(PyStr [97], PyNone)]
        = Inl KeyAlreadyInObject
   \<and> read_header [0x1B, 0x27] = Inr (Array, 1, 1)
   \<and> u_read_jsonb no_floats (py_slice [0x1B, 0x27] 1 (1 + 1)) = Inr (PyStr [], 3)
   \<and> u_read_jsonb no_floats [0x1B, 0x27] = Inr (PyList [PyStr []], 1 + 1)"
proof -
  have k1: "u_read_jsonb no_floats (drop 0 [0x27]) = Inr (PyStr [], 3)"
    by (simp add: reader_eval)
  have k2: "u_read_jsonb no_floats (drop 0 [0x00, 0x27]) = Inr (PyNone, 1)"
    by (simp add: reader_eval)
  have k3: "u_read_jsonb no_floats (drop (0 + 1) [0x00, 0x27]) = Inr (PyStr [], 3)"
    by (simp add: reader_eval)
  have k5: "read_header [0x1B, 0x27] = Inr (Array, 1, 1)"
    by (simp add: read_header_def JsonbType_of_def)
  have k6: "u_read_jsonb no_floats (py_slice [0x1B, 0x27] 1 (1 + 1)) = Inr (PyStr [], 3)"
    by (simp add: reader_eval)
  have k7: "u_read_jsonb no_floats (drop 0 [0x0B, 0x27]) = Inr (PyList [], 1)"
    by (simp add: reader_eval)
  have k8: "u_read_jsonb no_floats (drop (0 + 1) [0x0B, 0x27]) = Inr (PyStr [], 3)"
    by (simp add: reader_eval)
  have k9: "u_read_jsonb no_floats (drop 3 [0x17, 0x61, 0x00, 0x17, 0x61, 0x27])
              = Inr (PyStr [97], 2)"
    by (simp add: reader_eval)
  have k10: "u_read_jsonb no_floats (drop (3 + 2) [0x17, 0x61, 0x00, 0x17, 0x61, 0x27])
              = Inr (PyStr [], 3)"
    by (simp add: reader_eval)
  note t1 = composite_overrun_accepted
    [where F = no_floats and inner = "[0x27]" and sz = 1 and c = 0 and el = "PyStr []"
       and n = 3 and k = "PyStr []" and kn = 3 and acc = "[]" and res = "[]"
       and b = "[0x1B, 0x27]" and off = 1 and v = PyNone and vn = 0]
  note t2 = composite_overrun_accepted
    [where F = no_floats and inner = "[0x00, 0x27]" and sz = 2 and c = 0 and k = PyNone
       and kn = 1 and v = "PyStr []" and vn = 3 and res = "[]" and el = PyNone and n = 0
       and acc = "[]" and b = "[]" and off = 0]
  note t3 = composite_overrun_accepted
    [where F = no_floats and inner = "[0x0B, 0x27]" and sz = 2 and c = 0 and k = "PyList []"
       and kn = 1 and v = "PyStr []" and vn = 3 and res = "[]" and el = PyNone and n = 0
       and acc = "[]" and b = "[]" and off = 0]
  note t4 = composite_overrun_accepted
    [where F = no_floats and inner = "[0x17, 0x61, 0x00, 0x17, 0x61, 0x27]" and sz = 6
       and c = 3 and k = "PyStr [97]" and kn = 2 and v = "PyStr []" and vn = 3
       and res = "[(PyStr [97], PyNone)]" and el = PyNone and n = 0
       and acc = "[]" and b = "[]" and off = 0]
  from t1 k1 k5 k6 have a: "array_loop no_floats [0x27] 1 0 [] = Inr ([] @ [PyStr []])"
    and b: "object_loop no_floats [0x27] 1 0 [] = Inl ObjectRanOutOfData"
    and d: "u_read_jsonb no_floats [0x1B, 0x27] = Inr (PyList [PyStr []], 1 + 1)"
    by simp_all
  from t2 k2 k3
  have c: "object_loop no_floats [0x00, 0x27] 2 0 [] = Inr ([] @ [(PyNone, PyStr [])])"
    by simp
  from t3 k7 k8 have e: "object_loop no_floats [0x0B, 0x27] 2 0 [] = Inl UnhashableKey"
    by simp
  from t4 k9 k10
  have f: "object_loop no_floats [0x17, 0x61, 0x00, 0x17, 0x61, 0x27] 6 3 [(PyStr [97], PyNone)]
             = Inl KeyAlreadyInObject"
    by simp
  from a b c d e f k1 k2 k3 k5 k6 k7 k8 k9 k10 show ?thesis by simp
qed

text \<open>
  C2 as stated fails on that Array: the element reports 3 bytes against a payload of 1,
  and the list is returned.
\<close>

theorem overrun_counterexample:
  "u_read_jsonb no_floats [0x1B, 0x27] = Inr (PyList [PyStr []], 2)"
  by (simp add: reader_eval)

subsection \<open>C3: bytes after the consumed length\<close>

text \<open>
  C3 does not hold for the code. The Int5 branch compares
  \<open>jsonb_data[data_start_offset:data_start_offset + 2]\<close> with \<open>b"0x"\<close> without regard to
  \<open>size\<close> (line 95), so for an Int5 of size 1 the second byte compared lies after the
  value. The buffer \<open>14 30\<close> is the Int5 \<open>0\<close> and consumes 2 bytes; with the byte \<open>78\<close>
  (the letter x) after it, the same call raises ValueError.
\<close>

theorem int5_trailing_byte:
  "u_read_jsonb no_floats [0x14, 0x30] = Inr (PyInt 0, 2)
   \<and> read_jsonb no_floats [0x14, 0x30] = Inr (PyInt 0)
   \<and> read_jsonb no_floats ([0x14, 0x30] @ [0x78]) = Inl IntValueError"
  by (simp add: reader_eval)

subsection \<open>C4: object keys that are not Text\<close>

text \<open>
  C4, as the code has it. The Object loop never looks at the kind of a key. Once a key and
  its value are decoded, the key goes through \<open>key in result\<close>: a key that decoded to a
  list or a dict (Array, Object) fails there with TypeError, and any other key (None,
  bool, int, float as well as str) is stored unless an equal key is present, in which
  case the KeyError of line 136 is raised. The second part states this for a whole buffer
  holding one pair.
\<close>

theorem object_key_kinds:
  "(c < sz \<and> u_read_jsonb F (drop c inner) = Inr (k, kn) \<and> c + kn < sz
      \<and> u_read_jsonb F (drop (c + kn) inner) = Inr (v, vn) \<longrightarrow>
    object_loop F inner sz c res =
      (if \<not> hashable k then Inl UnhashableKey
       else if \<exists>k' \<in> set (map fst res). py_eq F k' k then Inl KeyAlreadyInObject
       else object_loop F inner sz (c + kn + vn) (res @ [(k, v)])))
   \<and> (read_header b = Inr (Object, sz, off)
        \<and> u_read_jsonb F (py_slice b off (off + sz)) = Inr (k, kn) \<and> kn < sz
        \<and> u_read_jsonb F (drop kn (py_slice b off (off + sz))) = Inr (v, vn)
        \<and> sz \<le> kn + vn \<longrightarrow>
      u_read_jsonb F b =
        (if hashable k then Inr (PyDict [(k, v)], off + sz) else Inl UnhashableKey))"
proof (intro conjI impI)
  assume "c < sz \<and> u_read_jsonb F (drop c inner) = Inr (k, kn) \<and> c + kn < sz
      \<and> u_read_jsonb F (drop (c + kn) inner) = Inr (v, vn)"
  then show "object_loop F inner sz c res =
      (if \<not> hashable k then Inl UnhashableKey
       else if \<exists>k' \<in> set (map fst res). py_eq F k' k then Inl KeyAlreadyInObject
       else object_loop F inner sz (c + kn + vn) (res @ [(k, v)]))"
    by (simp add: object_loop.simps[of F inner sz c res] dict_contains_def)
next
  assume a: "read_header b = Inr (Object, sz, off)
        \<and> u_read_jsonb F (py_slice b off (off + sz)) = Inr (k, kn) \<and> kn < sz
        \<and> u_read_jsonb F (drop kn (py_slice b off (off + sz))) = Inr (v, vn)
        \<and> sz \<le> kn + vn"
  then have "object_loop F (take sz (drop off b)) sz 0 [] =
      (if hashable k then Inr [(k, v)] else Inl UnhashableKey)"
    by (simp add: py_slice_def object_loop.simps[of F _ sz 0 "[]"]
                  object_loop.simps[of F _ sz "kn + vn" "[(k, v)]"] dict_contains_def)
  with a show "u_read_jsonb F b =
        (if hashable k then Inr (PyDict [(k, v)], off + sz) else Inl UnhashableKey)"
    by (simp add: u_read_jsonb_header payload_value_def)
qed

text \<open>
  The theorem at an Object whose key is an empty Array (TypeError), and at the loop over
  a Null key with a Null value (stored).
\<close>

theorem object_key_kinds_witness:
  "read_header [0x2C, 0x0B, 0x00] = Inr (Object, 2, 1)
   \<and> u_read_jsonb no_floats (py_slice [0x2C, 0x0B, 0x00] 1 (1 + 2)) = Inr (PyList [], 1)
   \<and> u_read_jsonb no_floats (drop 1 (py_slice [0x2C, 0x0B, 0x00] 1 (1 + 2))) = Inr (PyNone, 1)
   \<and> u_read_jsonb no_floats [0x2C, 0x0B, 0x00] = Inl UnhashableKey
   \<and> u_read_jsonb no_floats (drop 0 [0x00, 0x00]) = Inr (PyNone, 1)
   \<and> u_read_jsonb no_floats (drop (0 + 1) [0x00, 0x00]) = Inr (PyNone, 1)
   \<and> object_loop no_floats [0x00, 0x00] 2 0 [] = Inr [(PyNone, PyNone)]"
proof -
  have k1: "read_header [0x2C, 0x0B, 0x00] = Inr (Object, 2, 1)"
    by (simp add: read_header_def JsonbType_of_def)
  have k2: "u_read_jsonb no_floats (py_slice [0x2C, 0x0B, 0x00] 1 (1 + 2)) = Inr (PyList [], 1)"
    by (simp add: reader_eval)
  have k3: "u_read_jsonb no_floats (drop 1 (py_slice [0x2C, 0x0B, 0x00] 1 (1 + 2)))
              = Inr (PyNone, 1)"
    by (simp add: reader_eval)
  have k4: "u_read_jsonb no_floats (drop 0 [0x00, 0x00]) = Inr (PyNone, 1)"
    by (simp add: reader_eval)
  have k5: "u_read_jsonb no_floats (drop (0 + 1) [0x00, 0x00]) = Inr (PyNone, 1)"
    by (simp add: reader_eval)
  note t1 = object_key_kinds
    [where F = no_floats and b = "[0x2C, 0x0B, 0x00]" and sz = 2 and off = 1
       and k = "PyList []" and kn = 1 and v = PyNone and vn = 1 and c = 0 and inner = "[]"
       and res = "[]"]
  note t2 = object_key_kinds
    [where F = no_floats and inner = "[0x00, 0x00]" and sz = 2 and c = 0 and res = "[]"
       and k = PyNone and kn = 1 and v = PyNone and vn = 1 and b = "[]" and off = 0]
  from t1 k1 k2 k3 have a: "u_read_jsonb no_floats [0x2C, 0x0B, 0x00] = Inl UnhashableKey"
    by simp
  from t2 k4 k5 have b: "object_loop no_floats [0x00, 0x00] 2 0 [] = Inr [(PyNone, PyNone)]"
    by (simp add: object_loop.simps[of no_floats "[0, 0]" 2 "Suc (Suc 0)" "[(PyNone, PyNone)]"])
  from a b k1 k2 k3 k4 k5 show ?thesis by simp
qed

text \<open>C4 as stated fails on the Object with a Null key and a Null value: it is returned.\<close>

theorem non_text_key_counterexample:
  "u_read_jsonb no_floats [0x2C, 0x00, 0x00] = Inr (PyDict [(PyNone, PyNone)], 3)"
  by (simp add: reader_eval)

subsection \<open>C9: termination\<close>

text \<open>
  C9. Every call of \<open>_read_jsonb\<close> and every run of its two loops terminates: each
  argument lies in the domain of the recursion, that is, the calls reachable from it are
  well-founded. The two facts behind it: the payload slice, and so every buffer a child is
  read from, is shorter than the buffer of the caller; and a successful call reports at
  least one byte, so each loop iteration moves the cursor forward.
\<close>

theorem decode_terminates:
  "u_read_jsonb_array_loop_object_loop_dom (Inl (F, b))
   \<and> u_read_jsonb_array_loop_object_loop_dom (Inr (Inl (F, inner, sz', c', acc)))
   \<and> u_read_jsonb_array_loop_object_loop_dom (Inr (Inr (F, inner, sz', c', res)))
   \<and> (read_header b = Inr (t, sz, off) \<longrightarrow>
        length (drop c (py_slice b off (off + sz))) < length b)
   \<and> (u_read_jsonb F b = Inr (v, n) \<longrightarrow> 1 \<le> n)"
  using inner_shorter[of b t sz off "off + sz"]
  by (auto simp: reader_dom dest: consumed_positive)

text \<open>The theorem at an Array holding one Null.\<close>

theorem decode_terminates_witness:
  "u_read_jsonb_array_loop_object_loop_dom (Inl (no_floats, [0x1B, 0x00]))
   \<and> read_header [0x1B, 0x00] = Inr (Array, 1, 1)
   \<and> length (drop 0 (py_slice [0x1B, 0x00 :: byte] 1 (1 + 1))) < length [0x1B, 0x00 :: byte]
   \<and> u_read_jsonb no_floats [0x1B, 0x00] = Inr (PyList [PyNone], 2) \<and> (1::nat) \<le> 2"
  using decode_terminates [of no_floats "[0x1B, 0x00]" _ _ _ _ _ Array 1 1 0 "PyList [PyNone]" 2]
  by (simp add: reader_eval)

subsection \<open>C8: the consumed count and the header length\<close>



subsection \<open>C10: size prefixes wider than needed\<close>

text \<open>
  C10. The reader accepts any selector for a payload size and the value does not depend
  on it: two buffers whose headers resolve to the same type and the same size, and which
  agree after their headers, give the same value or the same error, and the counts differ
  by the difference of the header lengths. The other parts state it for each widening: a
  size \<open>N \<le> 11\<close> under selector 12 instead of the literal selector (one byte more), a
  one-byte size under selector 13 (one more), a two-byte size under selector 14 (two
  more), a four-byte size under selector 15 (four more). \<open>tg\<close> is the type nibble.
\<close>

theorem size_prefix_width_irrelevant:
  "(read_header b1 = Inr (t, sz, off1) \<and> read_header b2 = Inr (t, sz, off2)
      \<and> drop off1 b1 = drop off2 b2 \<longrightarrow>
    (case u_read_jsonb F b1 of
       Inl e \<Rightarrow> u_read_jsonb F b2 = Inl e
     | Inr (v, n) \<Rightarrow> n = off1 + sz \<and> u_read_jsonb F b2 = Inr (v, off2 + sz)))
   \<and> (tg < 16 \<and> N \<le> 11 \<longrightarrow>
        u_read_jsonb F (of_nat (192 + tg) # of_nat N # rest)
          = map_sum id (apsnd (\<lambda>n. n + 1)) (u_read_jsonb F (of_nat (16 * N + tg) # rest)))
   \<and> (tg < 16 \<longrightarrow>
        u_read_jsonb F (of_nat (208 + tg) # 0 # x1 # rest)
          = map_sum id (apsnd (\<lambda>n. n + 1)) (u_read_jsonb F (of_nat (192 + tg) # x1 # rest)))
   \<and> (tg < 16 \<longrightarrow>
        u_read_jsonb F (of_nat (224 + tg) # 0 # 0 # x1 # x2 # rest)
          = map_sum id (apsnd (\<lambda>n. n + 2)) (u_read_jsonb F (of_nat (208 + tg) # x1 # x2 # rest)))
   \<and> (tg < 16 \<longrightarrow>
        u_read_jsonb F (of_nat (240 + tg) # 0 # 0 # 0 # 0 # x1 # x2 # x3 # x4 # rest)
          = map_sum id (apsnd (\<lambda>n. n + 4))
              (u_read_jsonb F (of_nat (224 + tg) # x1 # x2 # x3 # x4 # rest)))"
proof (intro conjI impI)
  assume "read_header b1 = Inr (t, sz, off1) \<and> read_header b2 = Inr (t, sz, off2)
      \<and> drop off1 b1 = drop off2 b2"
  then show "case u_read_jsonb F b1 of
       Inl e \<Rightarrow> u_read_jsonb F b2 = Inl e
     | Inr (v, n) \<Rightarrow> n = off1 + sz \<and> u_read_jsonb F b2 = Inr (v, off2 + sz)"
    by (simp add: header_step)
next
  assume a: "tg < 16 \<and> N \<le> 11"
  then obtain t where t: "JsonbType_of tg = Some t" using JsonbType_of_total[of tg] by auto
  from a have N: "unat (of_nat N :: byte) = N" by (simp add: byte_of_nat)
  from a t have h1: "read_header (of_nat (16 * N + tg) # rest) = Inr (t, N, 1)"
    using read_header_literal[of tg N t rest] by blast
  from a t have h2: "read_header (of_nat (192 + tg) # of_nat N # rest) = Inr (t, N, 2)"
    using read_header_wide(1)[of tg t "of_nat N" rest] by (simp only: N)
  show "u_read_jsonb F (of_nat (192 + tg) # of_nat N # rest)
          = map_sum id (apsnd (\<lambda>n. n + 1)) (u_read_jsonb F (of_nat (16 * N + tg) # rest))"
    using header_step[OF h1 h2, of F]
    by (auto split: sum.splits simp del: of_nat_add of_nat_mult)
next
  assume a: "tg < 16"
  then obtain t where t: "JsonbType_of tg = Some t" using JsonbType_of_total[of tg] by auto
  note h1 = read_header_wide(1)[OF a t, of x1 rest]
  have h2: "read_header (of_nat (208 + tg) # 0 # x1 # rest) = Inr (t, unat x1, 3)"
    using read_header_wide(2)[OF a t, of 0 x1 rest] by (simp del: of_nat_add of_nat_mult)
  show "u_read_jsonb F (of_nat (208 + tg) # 0 # x1 # rest)
          = map_sum id (apsnd (\<lambda>n. n + 1)) (u_read_jsonb F (of_nat (192 + tg) # x1 # rest))"
    using header_step[OF h1 h2, of F]
    by (auto split: sum.splits simp del: of_nat_add of_nat_mult)
next
  assume a: "tg < 16"
  then obtain t where t: "JsonbType_of tg = Some t" using JsonbType_of_total[of tg] by auto
  note h1 = read_header_wide(2)[OF a t, of x1 x2 rest]
  have h2: "read_header (of_nat (224 + tg) # 0 # 0 # x1 # x2 # rest)
              = Inr (t, unat x1 * 256 + unat x2, 5)"
    using read_header_wide(3)[OF a t, of 0 0 x1 x2 rest] by (simp del: of_nat_add of_nat_mult)
  show "u_read_jsonb F (of_nat (224 + tg) # 0 # 0 # x1 # x2 # rest)
          = map_sum id (apsnd (\<lambda>n. n + 2)) (u_read_jsonb F (of_nat (208 + tg) # x1 # x2 # rest))"
    using header_step[OF h1 h2, of F]
    by (auto split: sum.splits simp del: of_nat_add of_nat_mult)
next
  assume a: "tg < 16"
  then obtain t where t: "JsonbType_of tg = Some t" using JsonbType_of_total[of tg] by auto
  note h1 = read_header_wide(3)[OF a t, of x1 x2 x3 x4 rest]
  have h2: "read_header (of_nat (240 + tg) # 0 # 0 # 0 # 0 # x1 # x2 # x3 # x4 # rest)
              = Inr (t, ((unat x1 * 256 + unat x2) * 256 + unat x3) * 256 + unat x4, 9)"
    using read_header_wide(4)[OF a t, of 0 0 0 0 x1 x2 x3 x4 rest] by (simp del: of_nat_add of_nat_mult)
  show "u_read_jsonb F (of_nat (240 + tg) # 0 # 0 # 0 # 0 # x1 # x2 # x3 # x4 # rest)
          = map_sum id (apsnd (\<lambda>n. n + 4))
              (u_read_jsonb F (of_nat (224 + tg) # x1 # x2 # x3 # x4 # rest))"
    using header_step[OF h1 h2, of F]
    by (auto split: sum.splits simp del: of_nat_add of_nat_mult)
qed

text \<open>The theorem at the Text \<open>hi\<close>, written with each of the five header widths.\<close>

theorem size_prefix_width_witness:
  "read_header [0x27, 0x68, 0x69] = Inr (Text, 2, 1)
   \<and> read_header [0xC7, 0x02, 0x68, 0x69] = Inr (Text, 2, 2)
   \<and> drop 1 [0x27, 0x68, 0x69 :: byte] = drop 2 [0xC7, 0x02, 0x68, 0x69]
   \<and> (7 :: nat) < 16 \<and> (2 :: nat) \<le> 11
   \<and> u_read_jsonb no_floats [0x27, 0x68, 0x69] = Inr (PyStr [104, 105], 3)
   \<and> u_read_jsonb no_floats [0xC7, 0x02, 0x68, 0x69] = Inr (PyStr [104, 105], 4)
   \<and> u_read_jsonb no_floats [0xD7, 0, 0x02, 0x68, 0x69] = Inr (PyStr [104, 105], 5)
   \<and> u_read_jsonb no_floats [0xE7, 0, 0, 0, 0x02, 0x68, 0x69] = Inr (PyStr [104, 105], 7)
   \<and> u_read_jsonb no_floats [0xF7, 0, 0, 0, 0, 0, 0, 0, 0x02, 0x68, 0x69]
         = Inr (PyStr [104, 105], 11)"
proof -
  have h1: "read_header [0x27, 0x68, 0x69] = Inr (Text, 2, 1)"
    by (simp add: read_header_def JsonbType_of_def)
  have h2: "read_header [0xC7, 0x02, 0x68, 0x69] = Inr (Text, 2, 2)"
    by (simp add: read_header_def JsonbType_of_def)
  have k: "u_read_jsonb no_floats [0x27, 0x68, 0x69] = Inr (PyStr [104, 105], 3)"
    by (simp add: reader_eval)
  note t1 = size_prefix_width_irrelevant
    [where F = no_floats and ?b1.0 = "[0x27, 0x68, 0x69]" and ?b2.0 = "[0xC7, 0x02, 0x68, 0x69]"
       and t = Text and sz = 2 and ?off1.0 = 1 and ?off2.0 = 2 and tg = 7 and N = 2
       and rest = "[0x68, 0x69]" and ?x1.0 = 2 and ?x2.0 = 0 and ?x3.0 = 0 and ?x4.0 = 0]
  note t2 = size_prefix_width_irrelevant
    [where F = no_floats and ?b1.0 = "[]" and ?b2.0 = "[]"
       and t = Text and sz = 2 and ?off1.0 = 1 and ?off2.0 = 2 and tg = 7 and N = 2
       and rest = "[0x68, 0x69]" and ?x1.0 = 0 and ?x2.0 = 2 and ?x3.0 = 0 and ?x4.0 = 0]
  note t3 = size_prefix_width_irrelevant
    [where F = no_floats and ?b1.0 = "[]" and ?b2.0 = "[]"
       and t = Text and sz = 2 and ?off1.0 = 1 and ?off2.0 = 2 and tg = 7 and N = 2
       and rest = "[0x68, 0x69]" and ?x1.0 = 0 and ?x2.0 = 0 and ?x3.0 = 0 and ?x4.0 = 2]
  from t1 h1 h2 k
  have a: "u_read_jsonb no_floats [0xC7, 0x02, 0x68, 0x69] = Inr (PyStr [104, 105], 4)"
    and b: "u_read_jsonb no_floats [0xD7, 0, 0x02, 0x68, 0x69] = Inr (PyStr [104, 105], 5)"
    by simp_all
  from t2 b
  have c: "u_read_jsonb no_floats [0xE7, 0, 0, 0, 0x02, 0x68, 0x69] = Inr (PyStr [104, 105], 7)"
    by simp
  from t3 c
  have d: "u_read_jsonb no_floats [0xF7, 0, 0, 0, 0, 0, 0, 0, 0x02, 0x68, 0x69]
             = Inr (PyStr [104, 105], 11)"
    by simp
  from h1 h2 k a b c d show ?thesis by simp
qed

subsection \<open>C6: the Int payload\<close>

text \<open>
  C6, as the code has it. The payload of an Int goes through \<open>int()\<close>, so decoding
  succeeds exactly when the payload is a decimal literal in the sense of \<open>int()\<close>:
  ASCII blanks, one optional sign, decimal digits that single underscores may separate,
  ASCII blanks, with at most \<open>int_max_str_digits\<close> digits; the result is that integer and
  the count is the header length plus the size. Every other payload fails, with
  UnicodeDecodeError when a byte is above 127 and with the ValueError of \<open>int()\<close>
  otherwise. In particular a payload that is one optional sign followed by one or more
  digits decodes to that integer (\<open>sg\<close> is the sign as character codes, \<open>ds\<close> the digit
  values), and an empty payload fails.
\<close>

theorem int_payload_literal:
  "(read_header b = Inr (IntT, sz, off) \<longrightarrow>
      (u_read_jsonb (F :: 'f float_ops) b = Inr (v, c)) =
        (\<exists>n. v = PyInt n \<and> c = off + sz
              \<and> decimal_literal (map unat (py_slice b off (off + sz))) n))
   \<and> (read_header b = Inr (IntT, sz, off) \<and> u_read_jsonb F b = Inl e \<longrightarrow>
        e = AsciiDecodeError \<or> e = IntValueError)
   \<and> (read_header b = Inr (IntT, sz, off)
        \<and> map unat (py_slice b off (off + sz)) = sg @ map (\<lambda>d. 48 + d) ds
        \<and> (sg = [] \<or> sg = [43] \<or> sg = [45])
        \<and> ds \<noteq> [] \<and> (\<forall>d \<in> set ds. d < 10) \<and> length ds \<le> int_max_str_digits \<longrightarrow>
      u_read_jsonb F b
        = Inr (PyInt ((if sg = [45] then - 1 else 1) * int (foldl (\<lambda>a d. a * 10 + d) 0 ds)),
               off + sz))
   \<and> (read_header b = Inr (IntT, sz, off) \<and> py_slice b off (off + sz) = [] \<longrightarrow>
        u_read_jsonb F b = Inl IntValueError)"
proof (intro conjI impI)
  assume h: "read_header b = Inr (IntT, sz, off)"
  let ?p = "py_slice b off (off + sz)"
  have u: "u_read_jsonb F b =
      (case decode_int 10 ?p of Inl e \<Rightarrow> Inl e | Inr v \<Rightarrow> Inr (v, off + sz))"
    using h by (simp add: u_read_jsonb_header payload_value_def py_slice_def)
  show "(u_read_jsonb F b = Inr (v, c)) =
        (\<exists>n. v = PyInt n \<and> c = off + sz \<and> decimal_literal (map unat ?p) n)"
  proof
    assume "u_read_jsonb F b = Inr (v, c)"
    then have "decode_int 10 ?p = Inr v" and c: "c = off + sz"
      unfolding u by (auto split: sum.splits)
    from decode_int_Inr[OF this(1)] c
    obtain n where "decode_ascii ?p = Some (map unat ?p)" "py_int 10 (map unat ?p) = Inr n"
      "v = PyInt n" "c = off + sz"
      by blast
    then show "\<exists>n. v = PyInt n \<and> c = off + sz \<and> decimal_literal (map unat ?p) n"
      using literal_py_int by blast
  next
    assume "\<exists>n. v = PyInt n \<and> c = off + sz \<and> decimal_literal (map unat ?p) n"
    then obtain n where n: "v = PyInt n" "c = off + sz" "decimal_literal (map unat ?p) n"
      by blast
    from decimal_literal_ascii[OF n(3)] have "\<forall>x \<in> set ?p. unat x < 128" by simp
    then have "decode_ascii ?p = Some (map unat ?p)" by (rule decode_ascii_Some)
    moreover have "py_int 10 (map unat ?p) = Inr n" using n(3) by (rule py_int_literal)
    ultimately show "u_read_jsonb F b = Inr (v, c)"
      unfolding u by (simp add: decode_int_def n)
  qed
next
  assume a: "read_header b = Inr (IntT, sz, off) \<and> u_read_jsonb F b = Inl e"
  then have "decode_int 10 (take sz (drop off b)) = (Inl e :: error + 'f pyval)"
    by (auto simp: u_read_jsonb_header payload_value_def split: sum.splits)
  then show "e = AsciiDecodeError \<or> e = IntValueError"
    by (rule decode_int_Inl)
next
  assume a: "read_header b = Inr (IntT, sz, off)
      \<and> map unat (py_slice b off (off + sz)) = sg @ map (\<lambda>d. 48 + d) ds
      \<and> (sg = [] \<or> sg = [43] \<or> sg = [45])
      \<and> ds \<noteq> [] \<and> (\<forall>d \<in> set ds. d < 10) \<and> length ds \<le> int_max_str_digits"
  let ?p = "py_slice b off (off + sz)"
  define n where "n = (if sg = [45] then - 1 else 1) * int (foldl (\<lambda>a d. a * 10 + d) 0 ds)"
  have "\<forall>c \<in> set (sg @ map (\<lambda>d. 48 + d) ds). c < 128" using a by auto
  with a have "\<forall>c \<in> set (map unat ?p). c < 128" by simp
  then have "\<forall>x \<in> set ?p. unat x < 128" by simp
  then have "decode_ascii ?p = Some (sg @ map (\<lambda>d. 48 + d) ds)"
    using a by (simp add: decode_ascii_Some)
  moreover have "py_int 10 (sg @ map (\<lambda>d. 48 + d) ds)
           = Inr ((if sg = [45] then - 1 else 1) * int (foldl (\<lambda>a d. a * 10 + d) 0 ds))"
    using a by (intro py_int_decimal) auto
  ultimately have "decode_int 10 ?p = (Inr (PyInt n) :: error + 'f pyval)"
    by (simp add: decode_int_def n_def)
  then have "u_read_jsonb F b = Inr (PyInt n, off + sz)"
    using a by (simp add: u_read_jsonb_header payload_value_def py_slice_def)
  then show "u_read_jsonb F b
      = Inr (PyInt ((if sg = [45] then - 1 else 1) * int (foldl (\<lambda>a d. a * 10 + d) 0 ds)),
             off + sz)"
    unfolding n_def .
next
  assume a: "read_header b = Inr (IntT, sz, off) \<and> py_slice b off (off + sz) = []"
  then have "take sz (drop off b) = []" by (simp add: py_slice_def)
  with a show "u_read_jsonb F b = Inl IntValueError"
    by (auto simp: u_read_jsonb_header payload_value_def decode_int_Nil)
qed

text \<open>
  The theorem at the Int \<open>-42\<close>, at an Int of size 0, and at the Int whose payload is a
  blank followed by \<open>1\<close>.
\<close>

theorem int_payload_literal_witness:
  "read_header [0x33, 0x2D, 0x34, 0x32] = Inr (IntT, 3, 1)
   \<and> map unat (py_slice [0x33, 0x2D, 0x34, 0x32 :: byte] 1 (1 + 3)) = [45] @ map (\<lambda>d. 48 + d) [4, 2]
   \<and> length [4, 2 :: nat] \<le> int_max_str_digits
   \<and> u_read_jsonb no_floats [0x33, 0x2D, 0x34, 0x32] = Inr (PyInt (- 42), 4)
   \<and> read_header [0x03] = Inr (IntT, 0, 1)
   \<and> py_slice [0x03 :: byte] 1 (1 + 0) = []
   \<and> u_read_jsonb no_floats [0x03] = Inl IntValueError
   \<and> read_header [0x23, 0x20, 0x31] = Inr (IntT, 2, 1)
   \<and> decimal_literal (map unat (py_slice [0x23, 0x20, 0x31 :: byte] 1 (1 + 2))) 1
   \<and> u_read_jsonb no_floats [0x23, 0x20, 0x31] = Inr (PyInt 1, 1 + 2)"
proof -
  have h: "read_header [0x33, 0x2D, 0x34, 0x32] = Inr (IntT, 3, 1)"
    by (simp add: read_header_def JsonbType_of_def)
  have p: "map unat (py_slice [0x33, 0x2D, 0x34, 0x32 :: byte] 1 (1 + 3))
             = [45] @ map (\<lambda>d. 48 + d) [4, 2]"
    by (simp add: py_slice_def)
  have l: "length [4, 2 :: nat] \<le> int_max_str_digits" by (simp add: int_max_str_digits_def)
  have h0: "read_header [0x03] = Inr (IntT, 0, 1)"
    by (simp add: read_header_def JsonbType_of_def)
  have p0: "py_slice [0x03 :: byte] 1 (1 + 0) = []" by (simp add: py_slice_def)
  have h1: "read_header [0x23, 0x20, 0x31] = Inr (IntT, 2, 1)"
    by (simp add: read_header_def JsonbType_of_def)
  have "decimal_literal ([32] @ [] @ [49] @ []) 1"
    unfolding decimal_literal_def
    by (intro exI[of _ "[32]"] exI[of _ "[]"] exI[of _ "[49]"] exI[of _ "[]"])
       (simp add: py_isspace_def digit_body_def is_dec_def body_digits_def int_max_str_digits_def)
  then have d1: "decimal_literal (map unat (py_slice [0x23, 0x20, 0x31 :: byte] 1 (1 + 2))) 1"
    by (simp add: py_slice_def)
  note t1 = int_payload_literal
    [where F = no_floats and b = "[0x33, 0x2D, 0x34, 0x32]" and sz = 3 and off = 1
       and sg = "[45]" and ds = "[4, 2]" and v = "PyInt (- 42)" and c = 4
       and e = IntValueError]
  note t2 = int_payload_literal
    [where F = no_floats and b = "[0x03]" and sz = 0 and off = 1 and sg = "[]" and ds = "[]"
       and v = PyNone and c = 0 and e = IntValueError]
  note t3 = int_payload_literal
    [where F = no_floats and b = "[0x23, 0x20, 0x31]" and sz = 2 and off = 1 and sg = "[]"
       and ds = "[]" and v = "PyInt 1" and c = "1 + 2" and e = IntValueError]
  from t1 h p l have a: "u_read_jsonb no_floats [0x33, 0x2D, 0x34, 0x32] = Inr (PyInt (- 42), 4)"
    by simp
  from t2 h0 p0 have b: "u_read_jsonb no_floats [0x03] = Inl IntValueError"
    by simp
  from t3 h1 d1 have c: "u_read_jsonb no_floats [0x23, 0x20, 0x31] = Inr (PyInt 1, 1 + 2)"
    by blast
  from h p l a h0 p0 b h1 d1 c show ?thesis by blast
qed

text \<open>
  C6 as stated fails on a payload with a leading blank and on one with an underscore
  between digits: both decode.
\<close>

theorem int_literal_counterexample:
  "u_read_jsonb no_floats [0x23, 0x20, 0x31] = Inr (PyInt 1, 3)
   \<and> u_read_jsonb no_floats [0x33, 0x31, 0x5F, 0x30] = Inr (PyInt 10, 4)"
  by (simp add: reader_eval)

subsection \<open>C7: duplicate keys\<close>

text \<open>
  C7, as the code has it. Take an Object whose payload is a sequence of encoded pairs,
  each a Text key followed by a value that decodes, and whose declared size is the length
  of that sequence. If two of the keys are the same text, \<open>_read_jsonb\<close> fails with the
  KeyError of line 136 and returns no mapping; if the keys are pairwise different it
  returns the mapping of the pairs in their order. The values are not arbitrary: the
  value after a key is decoded (line 134) before the key is tested (line 135), so when
  that value does not decode, its error is raised, whatever the key is (second part).
\<close>

theorem duplicate_key_rejected:
  "(list_all (pair_ok F) items \<and> read_header b = Inr (Object, sz, off)
      \<and> py_slice b off (off + sz) = pairs_payload items
      \<and> sz = length (pairs_payload items) \<longrightarrow>
    u_read_jsonb F b =
      (if distinct (map key_text items)
       then Inr (PyDict (map (\<lambda>p. (PyStr (key_text p), value_of p)) items), off + sz)
       else Inl KeyAlreadyInObject))
   \<and> (c < sz' \<and> u_read_jsonb F (drop c inner) = Inr (k, kn) \<and> c + kn < sz'
        \<and> u_read_jsonb F (drop (c + kn) inner) = Inl e \<longrightarrow>
      object_loop F inner sz' c res = Inl e)"
proof (intro conjI impI)
  assume a: "list_all (pair_ok F) items \<and> read_header b = Inr (Object, sz, off)
      \<and> py_slice b off (off + sz) = pairs_payload items
      \<and> sz = length (pairs_payload items)"
  then have ok: "list_all (pair_ok F) items"
    and h: "read_header b = Inr (Object, sz, off)"
    and eq0: "py_slice b off (off + sz) = pairs_payload items"
    and sz: "sz = length (pairs_payload items)"
    by blast+
  from eq0 have eq: "take sz (drop off b) = pairs_payload items"
    by (simp add: py_slice_def)
  have "object_loop F ([] @ pairs_payload items)
           (length ([] :: byte list) + length (pairs_payload items))
           (length ([] :: byte list)) [] =
         (if distinct (map key_text items) \<and> set (map key_text items) \<inter> set [] = {}
          then Inr ([] @ map (\<lambda>p. (PyStr (key_text p), value_of p)) items)
          else Inl KeyAlreadyInObject)"
    by (rule object_loop_items[OF ok]) simp
  then have L: "object_loop F (pairs_payload items) (length (pairs_payload items)) 0 [] =
         (if distinct (map key_text items)
          then Inr (map (\<lambda>p. (PyStr (key_text p), value_of p)) items)
          else Inl KeyAlreadyInObject)"
    by simp
  have "object_loop F (take sz (drop off b)) sz 0 [] =
         (if distinct (map key_text items)
          then Inr (map (\<lambda>p. (PyStr (key_text p), value_of p)) items)
          else Inl KeyAlreadyInObject)"
    unfolding eq unfolding sz by (rule L)
  then show "u_read_jsonb F b =
      (if distinct (map key_text items)
       then Inr (PyDict (map (\<lambda>p. (PyStr (key_text p), value_of p)) items), off + sz)
       else Inl KeyAlreadyInObject)"
    using h by (simp add: u_read_jsonb_header payload_value_def)
next
  assume "c < sz' \<and> u_read_jsonb F (drop c inner) = Inr (k, kn) \<and> c + kn < sz'
        \<and> u_read_jsonb F (drop (c + kn) inner) = Inl e"
  then show "object_loop F inner sz' c res = Inl e"
    by (subst object_loop.simps) simp
qed

text \<open>
  The theorem at the Object with the pairs \<open>"a": 1\<close> and \<open>"a": null\<close>, and at the loop
  that has stored \<open>"a": 1\<close> and reads the key \<open>"a"\<close> followed by a TextJ value.
\<close>

theorem duplicate_key_rejected_witness:
  "list_all (pair_ok no_floats)
     [Pair_enc [0x17, 0x61] [97] [0x13, 0x31] (PyInt 1), Pair_enc [0x17, 0x61] [97] [0x00] PyNone]
   \<and> read_header [0x7C, 0x17, 0x61, 0x13, 0x31, 0x17, 0x61, 0x00] = Inr (Object, 7, 1)
   \<and> py_slice [0x7C, 0x17, 0x61, 0x13, 0x31, 0x17, 0x61, 0x00] 1 (1 + 7)
        = pairs_payload
            [Pair_enc [0x17, 0x61] [97] [0x13, 0x31] (PyInt 1),
             Pair_enc [0x17, 0x61] [97] [0x00] (PyNone :: unit pyval)]
   \<and> u_read_jsonb no_floats [0x7C, 0x17, 0x61, 0x13, 0x31, 0x17, 0x61, 0x00]
        = Inl KeyAlreadyInObject
   \<and> u_read_jsonb no_floats (drop 4 [0x17, 0x61, 0x13, 0x31, 0x17, 0x61, 0x08])
        = Inr (PyStr [97], 2)
   \<and> u_read_jsonb no_floats (drop (4 + 2) [0x17, 0x61, 0x13, 0x31, 0x17, 0x61, 0x08])
        = Inl TextJNotImplemented
   \<and> object_loop no_floats [0x17, 0x61, 0x13, 0x31, 0x17, 0x61, 0x08] 7 4
         [(PyStr [97], PyInt 1)] = Inl TextJNotImplemented"
proof -
  let ?items = "[Pair_enc [0x17, 0x61] [97] [0x13, 0x31] (PyInt 1),
                 Pair_enc [0x17, 0x61] [97] [0x00] (PyNone :: unit pyval)]"
  let ?b = "[0x7C, 0x17, 0x61, 0x13, 0x31, 0x17, 0x61, 0x00] :: byte list"
  let ?inner = "[0x17, 0x61, 0x13, 0x31, 0x17, 0x61, 0x08] :: byte list"
  have a: "list_all (pair_ok no_floats) ?items"
    by (simp add: pair_ok_def reader_eval)
  have h: "read_header ?b = Inr (Object, 7, 1)"
    by (simp add: read_header_def JsonbType_of_def)
  have p: "py_slice ?b 1 (1 + 7) = pairs_payload ?items"
    by (simp add: py_slice_def)
  have l: "7 = length (pairs_payload ?items)" by simp
  have k1: "u_read_jsonb no_floats (drop 4 ?inner) = Inr (PyStr [97], 2)"
    by (simp add: reader_eval)
  have k2: "u_read_jsonb no_floats (drop (4 + 2) ?inner) = Inl TextJNotImplemented"
    by (simp add: reader_eval)
  note t = duplicate_key_rejected
    [where F = no_floats and items = ?items and b = ?b and sz = 7 and off = 1
       and c = 4 and sz' = 7 and inner = ?inner and k = "PyStr [97]" and kn = 2
       and e = TextJNotImplemented and res = "[(PyStr [97], PyInt 1)]"]
  from t a h p l have r1: "u_read_jsonb no_floats ?b = Inl KeyAlreadyInObject"
    by simp
  from t k1 k2 have r2: "object_loop no_floats ?inner 7 4 [(PyStr [97], PyInt 1)]
      = Inl TextJNotImplemented"
    by simp
  from a h p r1 k1 k2 r2 show ?thesis by blast
qed

text \<open>
  C7 as stated fails on the Object with the pairs \<open>"a": 1\<close> and \<open>"a"\<close> followed by a
  TextJ value: the call fails with NotImplementedError, not with the KeyError.
\<close>

theorem duplicate_key_counterexample:
  "u_read_jsonb no_floats [0x7C, 0x17, 0x61, 0x13, 0x31, 0x17, 0x61, 0x08]
     = Inl TextJNotImplemented"
  by (simp add: reader_eval)

end
